theory Spec2Isabelle
  imports Main "HOL-Library.List_Lexorder" "HOL-Library.AList" "HOL-Library.Multiset"
begin

section \<open>Python values: errors, list indexing, integer arrays\<close>

text \<open>
  The module \<^verbatim>\<open>menpo/shape/graph.py\<close> is embedded function by function. An
  exception is a value \<open>Inl e\<close> of a sum type; a Python \<open>None\<close> result is the option
  \<open>None\<close> under \<open>Inr\<close>. Vertices are Python integers, hence \<open>int\<close>.
\<close>

datatype error = ValueError | IndexError | AttributeError | TypeError

text \<open>
  \<^verbatim>\<open>xs[i]\<close> on a Python list: a negative index counts from the end, an index outside
  \<open>[-len, len)\<close> raises IndexError. \<open>norm_index n i\<close> is the position read, if any.
\<close>

definition norm_index :: "nat \<Rightarrow> int \<Rightarrow> nat option" where
  "norm_index n i =
     (if 0 \<le> i \<and> i < int n then Some (nat i)
      else if i < 0 \<and> - int n \<le> i then Some (nat (int n + i))
      else None)"

definition py_index :: "'a list \<Rightarrow> int \<Rightarrow> 'a option" where
  "py_index xs i = (case norm_index (length xs) i of None \<Rightarrow> None | Some k \<Rightarrow> Some (xs ! k))"

text \<open>
  A two-dimensional integer \<^verbatim>\<open>ndarray\<close> is the list of its rows; all rows of an array
  have the same length. \<^verbatim>\<open>a.size\<close> counts the entries, \<^verbatim>\<open>a.shape[1]\<close> is the
  row length, \<^verbatim>\<open>a.min()\<close> and \<^verbatim>\<open>a.max()\<close> raise ValueError on an array without
  entries. The entries are unbounded integers: a graph holds a list with one entry per
  vertex, so \<^verbatim>\<open>a.max() + 1\<close> stays far below the range of a 64-bit entry.
\<close>

type_synonym ndarray = "int list list"

definition nd_size :: "ndarray \<Rightarrow> nat" where
  "nd_size a = length (concat a)"

definition shape1 :: "ndarray \<Rightarrow> nat" where
  "shape1 a = (case a of [] \<Rightarrow> 0 | r # _ \<Rightarrow> length r)"

definition nd_min :: "ndarray \<Rightarrow> error + int" where
  "nd_min a = (case concat a of [] \<Rightarrow> Inl ValueError | x # xs \<Rightarrow> Inr (fold min xs x))"

definition nd_max :: "ndarray \<Rightarrow> error + int" where
  "nd_max a = (case concat a of [] \<Rightarrow> Inl ValueError | x # xs \<Rightarrow> Inr (fold max xs x))"

section \<open>Unique rows\<close>

text \<open>
  \<^verbatim>\<open>_unique_array_rows\<close> views every row as one opaque key, asks \<^verbatim>\<open>np.unique\<close>
  for the index of the first occurrence of each distinct key (\<^verbatim>\<open>return_index=True\<close>;
  numpy lists them in the sorted order of the keys), sorts these indices and reads the rows
  at them. The keys are ordered here by the lexicographic order of the rows; the sort of the
  indices makes the result independent of that order.
\<close>

fun first_index :: "'a list \<Rightarrow> 'a \<Rightarrow> nat" where
  "first_index [] k = 0"
| "first_index (x # xs) k = (if x = k then 0 else Suc (first_index xs k))"

definition np_unique_index :: "('a::linorder) list \<Rightarrow> nat list" where
  "np_unique_index tmp = map (first_index tmp) (sorted_list_of_set (set tmp))"

definition unique_array_rows :: "ndarray \<Rightarrow> ndarray" where
  "unique_array_rows array = map (\<lambda>i. array ! i) (sort (np_unique_index array))"

text \<open>
  The specification of the result, in the words of the design: the rows that do not occur
  at a lower index of the input, in the order of the input.
\<close>

definition first_seen_rows :: "'a list \<Rightarrow> 'a list" where
  "first_seen_rows xs = map (\<lambda>i. xs ! i) (filter (\<lambda>i. xs ! i \<notin> set (take i xs)) [0..<length xs])"

section \<open>Graphs\<close>

text \<open>
  One record holds the attributes of an instance of \<^verbatim>\<open>UndirectedGraph\<close>,
  \<^verbatim>\<open>DirectedGraph\<close> or \<^verbatim>\<open>Tree\<close>; \<open>cls\<close> is the class of the instance, which
  selects the overridden methods. \<^verbatim>\<open>root_vertex\<close> and \<^verbatim>\<open>predecessors_list\<close>
  are set by \<^verbatim>\<open>Tree.__init__\<close> only: \<open>None\<close> means that the instance has no such
  attribute. An entry of the predecessors list is \<open>None\<close> for Python's \<^verbatim>\<open>None\<close>.
\<close>

datatype graph_class = UndirectedGraph | DirectedGraph | Tree

record graph =
  cls :: graph_class
  adjacency_array :: ndarray
  adjacency_list :: "int list list"
  root_vertex :: "int option"
  predecessors_list :: "int option list option"

definition n_edges :: "'a graph_scheme \<Rightarrow> int" where
  "n_edges g = int (length (adjacency_array g))"

definition n_vertices :: "'a graph_scheme \<Rightarrow> error + int" where
  "n_vertices g = (case nd_max (adjacency_array g) of Inl e \<Rightarrow> Inl e | Inr m \<Rightarrow> Inr (m + 1))"

text \<open>\<^verbatim>\<open>adjacency_list[v].append(w)\<close>\<close>

definition append_at :: "int list list \<Rightarrow> int \<Rightarrow> int \<Rightarrow> error + int list list" where
  "append_at al v w =
     (case norm_index (length al) v of
        None \<Rightarrow> Inl IndexError
      | Some k \<Rightarrow> Inr (al[k := al ! k @ [w]]))"

text \<open>The loop over the edges of \<^verbatim>\<open>UndirectedGraph._get_adjacency_list\<close>.\<close>

fun undirected_fill :: "ndarray \<Rightarrow> int list list \<Rightarrow> error + int list list" where
  "undirected_fill [] al = Inr al"
| "undirected_fill (e # es) al =
     (case py_index e 0 of None \<Rightarrow> Inl IndexError | Some v1 \<Rightarrow>
       (case py_index e 1 of None \<Rightarrow> Inl IndexError | Some v2 \<Rightarrow>
         (case append_at al v1 v2 of Inl x \<Rightarrow> Inl x | Inr al1 \<Rightarrow>
           (case append_at al1 v2 v1 of Inl x \<Rightarrow> Inl x | Inr al2 \<Rightarrow>
              undirected_fill es al2))))"

text \<open>The loop over the edges of \<^verbatim>\<open>DirectedGraph._get_adjacency_list\<close>.\<close>

fun directed_fill :: "ndarray \<Rightarrow> int list list \<Rightarrow> error + int list list" where
  "directed_fill [] al = Inr al"
| "directed_fill (e # es) al =
     (case py_index e 0 of None \<Rightarrow> Inl IndexError | Some parent \<Rightarrow>
       (case py_index e 1 of None \<Rightarrow> Inl IndexError | Some child \<Rightarrow>
         (case append_at al parent child of Inl x \<Rightarrow> Inl x | Inr al1 \<Rightarrow>
            directed_fill es al1)))"

text \<open>
  \<^verbatim>\<open>_get_adjacency_list\<close>, dispatched on the class (\<^verbatim>\<open>Tree\<close> inherits the
  directed one). It reads \<^verbatim>\<open>self.adjacency_array\<close> only.
\<close>

definition get_adjacency_list :: "graph_class \<Rightarrow> ndarray \<Rightarrow> error + int list list" where
  "get_adjacency_list c a =
     (case nd_max a of Inl e \<Rightarrow> Inl e | Inr m \<Rightarrow>
        (if c = UndirectedGraph then undirected_fill a (replicate (nat (m + 1)) [])
         else directed_fill a (replicate (nat (m + 1)) [])))"

text \<open>
  \<^verbatim>\<open>Graph.__init__\<close>. The \<^verbatim>\<open>copy\<close> flag only decides whether the stored array
  shares memory with the argument; the stored value is the same.
\<close>

definition Graph_init :: "graph_class \<Rightarrow> ndarray \<Rightarrow> error + graph" where
  "Graph_init c a =
     (if nd_size a = 0 then Inl ValueError
      else if shape1 a \<noteq> 2 then Inl ValueError
      else (case nd_min a of Inl e \<Rightarrow> Inl e | Inr m \<Rightarrow>
        if m \<noteq> 0 then Inl ValueError
        else let u = unique_array_rows a in
          (case get_adjacency_list c u of Inl e \<Rightarrow> Inl e | Inr al \<Rightarrow>
            Inr \<lparr>cls = c, adjacency_array = u, adjacency_list = al,
                 root_vertex = None, predecessors_list = None\<rparr>)))"

section \<open>Path search\<close>

text \<open>
  Python's truth value of a search result: \<^verbatim>\<open>None\<close> and the empty list are false.
\<close>

definition truthy :: "int list option \<Rightarrow> bool" where
  "truthy r = (case r of None \<Rightarrow> False | Some p \<Rightarrow> p \<noteq> [])"

text \<open>
  The measure of the three searches: the vertices of the graph that are not on the path,
  counted twice, plus one while the start is a vertex of the graph.
\<close>

definition search_measure :: "'a graph_scheme \<times> int \<times> int \<times> int list \<Rightarrow> nat" where
  "search_measure = (\<lambda>(g, start, en, path).
     (case n_vertices g of Inl e \<Rightarrow> 0 | Inr n \<Rightarrow>
        2 * card ({0..n - 1} - set (path @ [start]))
        + (if start > n - 1 \<or> start < 0 then 0 else 1)))"

lemma search_measure_decreases:
  assumes "n_vertices g = Inr n" and "\<not> (start > n - 1 \<or> start < 0)"
    and "v \<notin> set (path @ [start])"
  shows "search_measure (g, v, en, path @ [start]) < search_measure (g, start, en, path)"
proof -
  define A where "A = {0..n - 1} - set (path @ [start])"
  define B where "B = {0..n - 1} - set ((path @ [start]) @ [v])"
  have fin: "finite A" by (simp add: A_def)
  have m0: "search_measure (g, start, en, path) = 2 * card A + 1"
    using assms(1,2) unfolding search_measure_def A_def by simp
  have m1: "search_measure (g, v, en, path @ [start])
      = 2 * card B + (if v > n - 1 \<or> v < 0 then 0 else 1)"
    using assms(1) unfolding search_measure_def B_def by (simp add: insert_commute)
  show ?thesis
  proof (cases "v > n - 1 \<or> v < 0")
    case True
    then have "B = A" unfolding A_def B_def by auto
    with m0 m1 True show ?thesis by simp
  next
    case False
    then have "v \<in> A" using assms(3) unfolding A_def by auto
    then have "card (A - {v}) < card A" using fin by (rule card_Diff1_less[rotated])
    moreover have "B = A - {v}" unfolding A_def B_def by auto
    ultimately show ?thesis using m0 m1 False by simp
  qed
qed

text \<open>
  \<^verbatim>\<open>Graph.find_path\<close>. The \<^verbatim>\<open>for\<close> loop is a fold whose accumulator is \<open>None\<close>
  while the loop runs and \<open>Some r\<close> once it has returned \<open>r\<close> (or raised).
\<close>

function find_path :: "'a graph_scheme \<Rightarrow> int \<Rightarrow> int \<Rightarrow> int list \<Rightarrow> error + int list option" where
  "find_path g start en path0 =
     (let path = path0 @ [start] in
      if start = en then Inr (Some path)
      else case n_vertices g of Inl e \<Rightarrow> Inl e | Inr n \<Rightarrow>
        if start > n - 1 \<or> start < 0 then Inr None
        else (case py_index (adjacency_list g) start of None \<Rightarrow> Inl IndexError | Some vs \<Rightarrow>
          (case fold (\<lambda>v acc. case acc of Some r \<Rightarrow> Some r | None \<Rightarrow>
                    if v \<notin> set path then
                      (case find_path g v en path of Inl e \<Rightarrow> Some (Inl e)
                       | Inr newpath \<Rightarrow> if truthy newpath then Some (Inr newpath) else None)
                    else None) vs None
           of Some r \<Rightarrow> r | None \<Rightarrow> Inr None)))"
  by pat_completeness auto
termination
  by (relation "measure search_measure") (auto intro: search_measure_decreases)

declare find_path.simps [simp del]

text \<open>\<^verbatim>\<open>Graph.find_all_paths\<close>; the accumulator is the list \<^verbatim>\<open>paths\<close>.\<close>

function find_all_paths :: "'a graph_scheme \<Rightarrow> int \<Rightarrow> int \<Rightarrow> int list \<Rightarrow> error + int list list" where
  "find_all_paths g start en path0 =
     (let path = path0 @ [start] in
      if start = en then Inr [path]
      else case n_vertices g of Inl e \<Rightarrow> Inl e | Inr n \<Rightarrow>
        if start > n - 1 \<or> start < 0 then Inr []
        else (case py_index (adjacency_list g) start of None \<Rightarrow> Inl IndexError | Some vs \<Rightarrow>
          fold (\<lambda>v acc. case acc of Inl e \<Rightarrow> Inl e | Inr paths \<Rightarrow>
                    if v \<notin> set path then
                      (case find_all_paths g v en path of Inl e \<Rightarrow> Inl e
                       | Inr newpaths \<Rightarrow> Inr (paths @ newpaths))
                    else Inr paths) vs (Inr [])))"
  by pat_completeness auto
termination
  by (relation "measure search_measure") (auto intro: search_measure_decreases)

declare find_all_paths.simps [simp del]

definition n_paths :: "'a graph_scheme \<Rightarrow> int \<Rightarrow> int \<Rightarrow> error + int" where
  "n_paths g start en =
     (case find_all_paths g start en [] of Inl e \<Rightarrow> Inl e | Inr paths \<Rightarrow> Inr (int (length paths)))"

text \<open>\<^verbatim>\<open>Graph.find_shortest_path\<close>; the accumulator is \<^verbatim>\<open>shortest\<close>.\<close>

function find_shortest_path :: "'a graph_scheme \<Rightarrow> int \<Rightarrow> int \<Rightarrow> int list \<Rightarrow> error + int list option" where
  "find_shortest_path g start en path0 =
     (let path = path0 @ [start] in
      if start = en then Inr (Some path)
      else case n_vertices g of Inl e \<Rightarrow> Inl e | Inr n \<Rightarrow>
        if start > n - 1 \<or> start < 0 then Inr None
        else (case py_index (adjacency_list g) start of None \<Rightarrow> Inl IndexError | Some vs \<Rightarrow>
          fold (\<lambda>v acc. case acc of Inl e \<Rightarrow> Inl e | Inr shortest \<Rightarrow>
                    if v \<notin> set path then
                      (case find_shortest_path g v en path of Inl e \<Rightarrow> Inl e
                       | Inr newpath \<Rightarrow>
                           (if truthy newpath then
                              (if \<not> truthy shortest \<or> length (the newpath) < length (the shortest)
                               then Inr newpath else Inr shortest)
                            else Inr shortest))
                    else Inr shortest) vs (Inr None)))"
  by pat_completeness auto
termination
  by (relation "measure search_measure") (auto intro: search_measure_decreases)

declare find_shortest_path.simps [simp del]

section \<open>Cycle detection\<close>

text \<open>
  The four mutable arguments of the inner function \<^verbatim>\<open>dfs\<close> of \<^verbatim>\<open>_has_cycles\<close>:
  two sets and two dictionaries, passed along and returned updated. A dictionary is the
  list of its items in insertion order: \<open>map_of\<close> reads a key, \<open>AList.update\<close> stores
  a value, and the dictionary is false in a condition exactly when the list is empty.
\<close>

record dfs_state =
  entered :: "int set"
  exited :: "int set"
  tree_edges :: "(int \<times> int) list"
  back_edges :: "(int \<times> int set) list"

text \<open>The branch of the loop body that classifies the edge from \<open>node\<close> to \<open>y\<close>.\<close>

definition classify :: "bool \<Rightarrow> int \<Rightarrow> int \<Rightarrow> dfs_state \<Rightarrow> dfs_state" where
  "classify directed node y s =
     (if y \<notin> entered s then s\<lparr>tree_edges := AList.update y node (tree_edges s)\<rparr>
      else if (\<not> directed \<and> map_of (tree_edges s) node \<noteq> Some y) \<or> (directed \<and> y \<notin> exited s)
      then s\<lparr>back_edges := AList.update y
               (insert node (case map_of (back_edges s) y of None \<Rightarrow> {} | Some b \<Rightarrow> b))
               (back_edges s)\<rparr>
      else s)"

text \<open>
  \<^verbatim>\<open>dfs\<close> and its \<^verbatim>\<open>for\<close> loop over \<^verbatim>\<open>adjacency_list[node]\<close>; \<open>dfs_for\<close>
  takes the part of the list that is still to be visited.
\<close>

function dfs :: "int list list \<Rightarrow> bool \<Rightarrow> int \<Rightarrow> dfs_state \<Rightarrow> error + dfs_state"
  and dfs_for :: "int list list \<Rightarrow> bool \<Rightarrow> int \<Rightarrow> int list \<Rightarrow> dfs_state \<Rightarrow> error + dfs_state"
where
  "dfs al directed node s =
     (if node \<notin> entered s then
        (case py_index al node of None \<Rightarrow> Inl IndexError | Some ys \<Rightarrow>
          (case dfs_for al directed node ys (s\<lparr>entered := insert node (entered s)\<rparr>) of
             Inl e \<Rightarrow> Inl e
           | Inr s' \<Rightarrow> Inr (s'\<lparr>exited := insert node (exited s')\<rparr>)))
      else Inr s)"
| "dfs_for al directed node [] s = Inr s"
| "dfs_for al directed node (y # ys) s =
     (case dfs al directed y (classify directed node y s) of
        Inl e \<Rightarrow> Inl e
      | Inr s' \<Rightarrow> dfs_for al directed node ys s')"
  by pat_completeness auto

lemma py_index_mem: "py_index xs i = Some x \<Longrightarrow> x \<in> set xs"
  by (auto simp: py_index_def norm_index_def split: if_splits option.splits)

lemma classify_entered: "entered (classify d node y s) = entered s"
  by (simp add: classify_def)

lemma dfs_entered_mono:
  "dfs_dfs_for_dom (Inl (al, d, node, s)) \<Longrightarrow> dfs al d node s = Inr s' \<Longrightarrow> entered s \<subseteq> entered s'"
  "dfs_dfs_for_dom (Inr (al, d, node, ys, s)) \<Longrightarrow> dfs_for al d node ys s = Inr s'' \<Longrightarrow> entered s \<subseteq> entered s''"
proof (induct al d node s and al d node ys s arbitrary: s' and s'' rule: dfs_dfs_for.pinduct)
  case (1 al directed node s)
  show ?case
  proof (cases "node \<in> entered s")
    case True
    with 1 show ?thesis by (simp add: dfs.psimps)
  next
    case False
    with 1(1,3) obtain ys t where ys: "py_index al node = Some ys"
      and t: "dfs_for al directed node ys (s\<lparr>entered := insert node (entered s)\<rparr>) = Inr t"
      and s': "s' = t\<lparr>exited := insert node (exited t)\<rparr>"
      by (auto simp: dfs.psimps split: option.splits sum.splits)
    from 1(2)[OF False ys t] s' show ?thesis by auto
  qed
next
  case (2 al directed node s)
  then show ?case by (simp add: dfs_for.psimps)
next
  case (3 al directed node y ys s)
  then show ?case
    by (auto simp: dfs_for.psimps classify_entered split: sum.splits)
qed

text \<open>
  Termination: the vertices that can still be entered (those in the adjacency lists and in
  the list at hand) become fewer with every new \<open>dfs\<close>, and the loop list gets shorter.
\<close>

definition dfs_universe :: "int list list \<Rightarrow> int list \<Rightarrow> int set" where
  "dfs_universe al ys = set (concat al) \<union> set ys"

definition dfs_measure1 :: "(int list list \<times> bool \<times> int \<times> dfs_state) + (int list list \<times> bool \<times> int \<times> int list \<times> dfs_state) \<Rightarrow> nat" where
  "dfs_measure1 x = (case x of
       Inl (al, d, node, s) \<Rightarrow> card (dfs_universe al [node] - entered s)
     | Inr (al, d, node, ys, s) \<Rightarrow> card (dfs_universe al ys - entered s))"

definition dfs_measure2 :: "(int list list \<times> bool \<times> int \<times> dfs_state) + (int list list \<times> bool \<times> int \<times> int list \<times> dfs_state) \<Rightarrow> nat" where
  "dfs_measure2 x = (case x of
       Inl (al, d, node, s) \<Rightarrow> 0
     | Inr (al, d, node, ys, s) \<Rightarrow> Suc (length ys))"

lemma card_diff_mono: "finite U \<Longrightarrow> U' \<subseteq> U \<Longrightarrow> E \<subseteq> E' \<Longrightarrow> card (U' - E') \<le> card (U - E)"
  by (rule card_mono) auto

termination dfs
proof (relation "measures [dfs_measure1, dfs_measure2]", goal_cases)
  case 1
  then show ?case by simp
next
  case (2 al directed node s ys)
  have "ys \<in> set al" using 2 by (auto dest: py_index_mem)
  then have "dfs_universe al ys - insert node (entered s) \<subseteq> (dfs_universe al [node] - entered s) - {node}"
    by (auto simp: dfs_universe_def)
  moreover have "node \<in> dfs_universe al [node] - entered s" using 2 by (simp add: dfs_universe_def)
  moreover have "finite (dfs_universe al [node] - entered s)" by (simp add: dfs_universe_def)
  ultimately have "card (dfs_universe al ys - insert node (entered s)) < card (dfs_universe al [node] - entered s)"
    by (metis card_Diff1_less card_mono finite_Diff le_less_trans)
  then show ?case by (simp add: dfs_measure1_def)
next
  case (3 al directed node y ys s)
  have "card (dfs_universe al [y] - entered s) \<le> card (dfs_universe al (y # ys) - entered s)"
    by (rule card_diff_mono) (auto simp: dfs_universe_def)
  then show ?case by (auto simp: dfs_measure1_def dfs_measure2_def classify_entered)
next
  case (4 al directed node y ys s s')
  then have "entered s \<subseteq> entered s'"
    using dfs_entered_mono(1) by (fastforce simp: classify_entered)
  then have "card (dfs_universe al ys - entered s') \<le> card (dfs_universe al (y # ys) - entered s)"
    by (intro card_diff_mono) (auto simp: dfs_universe_def)
  then show ?case by (auto simp: dfs_measure1_def dfs_measure2_def)
qed


declare dfs.simps [simp del]

text \<open>
  \<^verbatim>\<open>_has_cycles\<close>: one search with fresh sets and dictionaries from every vertex; the
  search has found a cycle when its \<^verbatim>\<open>back_edges\<close> dictionary is not empty.
\<close>

definition dfs_init :: dfs_state where
  "dfs_init = \<lparr>entered = {}, exited = {}, tree_edges = [], back_edges = []\<rparr>"

fun has_cycles_for :: "int list list \<Rightarrow> bool \<Rightarrow> int list \<Rightarrow> error + bool" where
  "has_cycles_for al directed [] = Inr False"
| "has_cycles_for al directed (x # xs) =
     (case dfs al directed x dfs_init of
        Inl e \<Rightarrow> Inl e
      | Inr s \<Rightarrow> if back_edges s \<noteq> [] then Inr True else has_cycles_for al directed xs)"

definition has_cycles_impl :: "int list list \<Rightarrow> bool \<Rightarrow> error + bool" where
  "has_cycles_impl al directed = has_cycles_for al directed (map int [0..<length al])"

text \<open>\<^verbatim>\<open>has_cycles\<close> as overridden by \<^verbatim>\<open>UndirectedGraph\<close> and \<^verbatim>\<open>DirectedGraph\<close>.\<close>

definition has_cycles :: "'a graph_scheme \<Rightarrow> error + bool" where
  "has_cycles g = has_cycles_impl (adjacency_list g) (cls g \<noteq> UndirectedGraph)"

text \<open>\<^verbatim>\<open>Graph.is_tree\<close>; Python's \<^verbatim>\<open>and\<close> evaluates its right operand only if the left holds.\<close>

definition is_tree :: "'a graph_scheme \<Rightarrow> error + bool" where
  "is_tree g =
     (case has_cycles g of Inl e \<Rightarrow> Inl e | Inr c \<Rightarrow>
        if c then Inr False
        else (case n_vertices g of Inl e \<Rightarrow> Inl e | Inr n \<Rightarrow> Inr (n_edges g = n - 1)))"

text \<open>\<^verbatim>\<open>Graph._check_vertex\<close>\<close>

definition check_vertex :: "'a graph_scheme \<Rightarrow> int \<Rightarrow> error + unit" where
  "check_vertex g vertex =
     (case n_vertices g of Inl e \<Rightarrow> Inl e | Inr n \<Rightarrow>
        if vertex > n - 1 \<or> vertex < 0 then Inl ValueError else Inr ())"

section \<open>Trees\<close>

text \<open>\<^verbatim>\<open>predecessors_list[child] = parent\<close>\<close>

definition assign_at :: "'a list \<Rightarrow> int \<Rightarrow> 'a \<Rightarrow> error + 'a list" where
  "assign_at xs i x =
     (case norm_index (length xs) i of None \<Rightarrow> Inl IndexError | Some k \<Rightarrow> Inr (xs[k := x]))"

fun predecessors_fill :: "ndarray \<Rightarrow> int option list \<Rightarrow> error + int option list" where
  "predecessors_fill [] pl = Inr pl"
| "predecessors_fill (e # es) pl =
     (case py_index e 0 of None \<Rightarrow> Inl IndexError | Some parent \<Rightarrow>
       (case py_index e 1 of None \<Rightarrow> Inl IndexError | Some child \<Rightarrow>
         (case assign_at pl child (Some parent) of Inl x \<Rightarrow> Inl x | Inr pl1 \<Rightarrow>
            predecessors_fill es pl1)))"

text \<open>\<^verbatim>\<open>Tree._get_predecessors_list\<close>; it reads \<^verbatim>\<open>self.adjacency_array\<close> only.\<close>

definition get_predecessors_list :: "ndarray \<Rightarrow> error + int option list" where
  "get_predecessors_list a =
     (case nd_max a of Inl e \<Rightarrow> Inl e | Inr m \<Rightarrow>
        predecessors_fill a (replicate (nat (m + 1)) None))"

text \<open>
  \<^verbatim>\<open>Tree.__init__\<close>: the constructor of the directed graph, the test that the edges
  form a tree, the range check of the root, then the two attributes of a tree.
\<close>

definition Tree_init :: "ndarray \<Rightarrow> int \<Rightarrow> error + graph" where
  "Tree_init a root =
     (case Graph_init Tree a of Inl e \<Rightarrow> Inl e | Inr g \<Rightarrow>
       (case is_tree g of Inl e \<Rightarrow> Inl e | Inr t \<Rightarrow>
         (case (if t then (case n_vertices g of Inl e \<Rightarrow> Inl e
                           | Inr n \<Rightarrow> Inr (n_edges g = n - 1))
                else Inr False) of Inl e \<Rightarrow> Inl e | Inr ok \<Rightarrow>
            if \<not> ok then Inl ValueError
            else (case check_vertex g root of Inl e \<Rightarrow> Inl e | Inr u \<Rightarrow>
              (case get_predecessors_list (adjacency_array g) of Inl e \<Rightarrow> Inl e | Inr pl \<Rightarrow>
                 Inr (g\<lparr>root_vertex := Some root, predecessors_list := Some pl\<rparr>))))))"

text \<open>
  The \<^verbatim>\<open>while\<close> loop of \<^verbatim>\<open>Tree.depth_of_vertex\<close>. \<open>parent\<close> is an entry of the
  predecessors list, so it may be \<^verbatim>\<open>None\<close>; indexing a list with \<^verbatim>\<open>None\<close> raises
  TypeError, and reading an attribute that the instance does not have raises AttributeError.
  On a list of predecessors with a cycle that avoids the root the loop does not end: the
  result \<open>None\<close> of the option type.
\<close>

partial_function (option) depth_while ::
  "int option list option \<Rightarrow> int \<Rightarrow> int option \<Rightarrow> int \<Rightarrow> (error + int) option" where
  "depth_while preds root parent depth =
     (if \<not> parent = Some root then
        (case preds of None \<Rightarrow> Some (Inl AttributeError)
         | Some pl \<Rightarrow>
            (case parent of None \<Rightarrow> Some (Inl TypeError)
             | Some current \<Rightarrow>
                (case py_index pl current of None \<Rightarrow> Some (Inl IndexError)
                 | Some p \<Rightarrow> depth_while preds root p (depth + 1))))
      else Some (Inr depth))"

declare depth_while.simps [code]

definition depth_of_vertex :: "'a graph_scheme \<Rightarrow> int \<Rightarrow> (error + int) option" where
  "depth_of_vertex t vertex =
     (case check_vertex t vertex of Inl e \<Rightarrow> Some (Inl e) | Inr u \<Rightarrow>
       (case root_vertex t of None \<Rightarrow> Some (Inl AttributeError) | Some root \<Rightarrow>
          depth_while (predecessors_list t) root (Some vertex) 0))"

text \<open>\<^verbatim>\<open>Tree.parent\<close>\<close>

definition parent :: "'a graph_scheme \<Rightarrow> int \<Rightarrow> error + int option" where
  "parent t vertex =
     (case check_vertex t vertex of Inl e \<Rightarrow> Inl e | Inr u \<Rightarrow>
       (case predecessors_list t of None \<Rightarrow> Inl AttributeError | Some pl \<Rightarrow>
         (case py_index pl vertex of None \<Rightarrow> Inl IndexError | Some p \<Rightarrow> Inr p)))"

text \<open>
  The vertices from which the chain of predecessors leads to the root: the root itself, and
  every vertex whose entry in the predecessors list is such a vertex.
\<close>

inductive reaches_root :: "int option list \<Rightarrow> int \<Rightarrow> int \<Rightarrow> bool" for pl root where
  at_root: "reaches_root pl root root"
| up: "py_index pl v = Some (Some p) \<Longrightarrow> reaches_root pl root p \<Longrightarrow> reaches_root pl root v"

section \<open>Minimum spanning tree\<close>

text \<open>
  \<^verbatim>\<open>_correct_tree_edges\<close>. An edge of the solver is a pair (a Python tuple). The inner
  function \<^verbatim>\<open>_get_children\<close>: \<^verbatim>\<open>m.index(p)\<close> is the first position of \<open>p\<close> in the
  pair, and raises ValueError when \<open>p\<close> is not in it.
\<close>

fun get_children :: "int \<Rightarrow> (int \<times> int) list \<Rightarrow> error + int list" where
  "get_children p [] = Inr []"
| "get_children p (m # e) =
     (if fst m = p then
        (case get_children p e of Inl x \<Rightarrow> Inl x | Inr c \<Rightarrow> Inr (snd m # c))
      else if snd m = p then
        (case get_children p e of Inl x \<Rightarrow> Inl x | Inr c \<Rightarrow> Inr (fst m # c))
      else Inl ValueError)"

text \<open>\<^verbatim>\<open>current_vertex in item\<close>\<close>

definition in_item :: "int \<Rightarrow> int \<times> int \<Rightarrow> bool" where
  "in_item v item = (v = fst item \<or> v = snd item)"

lemma get_children_length: "get_children p e = Inr c \<Longrightarrow> length c = length e"
  by (induction e arbitrary: c) (auto split: if_splits sum.splits)

lemma length_fold_remove1:
  "length (fold remove1 (filter P xs) xs) = length xs - length (filter P xs)"
proof -
  have gen: "\<And>zs. mset as \<subseteq># mset zs \<Longrightarrow> length (fold remove1 as zs) = length zs - length as" for as :: "'a list"
  proof (induction as)
    case Nil
    then show ?case by simp
  next
    case (Cons a as)
    have a: "a \<in> set zs" using Cons.prems
      by (metis insert_subset_eq_iff mset.simps(2) mset_subset_eq_insertD set_mset_mset)
    have "mset as \<subseteq># mset (remove1 a zs)" using Cons.prems
      by (simp add: insert_subset_eq_iff)
    from Cons.IH[OF this] a show ?case by (simp add: length_remove1)
  qed
  show ?thesis by (rule gen) simp
qed

text \<open>
  The \<^verbatim>\<open>while\<close> loop: \<open>edges\<close> is the pool of edges not yet oriented,
  \<open>vertices_to_visit\<close> the queue, \<open>output_edges\<close> the result so far. The loop over the
  children appends to the result and to the queue in turn.
\<close>

function correct_tree_edges_while ::
  "(int \<times> int) list \<Rightarrow> int list \<Rightarrow> (int \<times> int) list \<Rightarrow> error + (int \<times> int) list" where
  "correct_tree_edges_while edges vertices_to_visit output_edges =
     (case vertices_to_visit of
        [] \<Rightarrow> Inr output_edges
      | current_vertex # rest \<Rightarrow>
          (let current_edges = filter (in_item current_vertex) edges;
               edges' = fold remove1 current_edges edges
           in case get_children current_vertex current_edges of
                Inl x \<Rightarrow> Inl x
              | Inr children \<Rightarrow>
                  correct_tree_edges_while edges'
                    (fold (\<lambda>child q. q @ [child]) children rest)
                    (fold (\<lambda>child out. out @ [(current_vertex, child)]) children output_edges)))"
  by pat_completeness auto

lemma fold_snoc: "fold (\<lambda>x q. q @ [f x]) xs q0 = q0 @ map f xs"
  by (induction xs arbitrary: q0) auto

text \<open>
  Termination: an iteration takes one vertex from the queue and moves as many edges out
  of the pool as it adds vertices to the queue.
\<close>

termination correct_tree_edges_while
proof (relation "measure (\<lambda>(edges, q, out). 2 * length edges + length q)", goal_cases)
  case 1
  then show ?case by simp
next
  case (2 edges q out v rest ces edges' children)
  have len: "length children = length ces" using 2 by (auto dest: get_children_length)
  have le: "length ces \<le> length edges" unfolding 2(2) by (rule length_filter_le)
  have e: "length edges' = length edges - length ces"
    unfolding 2(2,3) by (rule length_fold_remove1)
  have q: "length (fold (\<lambda>child q. q @ [child]) children rest) = length rest + length children"
    by (simp add: fold_snoc[of "\<lambda>x. x", simplified])
  have "2 * length edges' + (length rest + length children) < 2 * length edges + Suc (length rest)"
    using le e len by linarith
  then show ?case unfolding 2(1) using q by simp
qed

declare correct_tree_edges_while.simps [simp del]

definition correct_tree_edges :: "(int \<times> int) list \<Rightarrow> int \<Rightarrow> error + (int \<times> int) list" where
  "correct_tree_edges edges root = correct_tree_edges_while edges [root] []"

text \<open>\<^verbatim>\<open>np.array\<close> of a list of pairs: the array with one row of two entries per pair.\<close>

definition np_array :: "(int \<times> int) list \<Rightarrow> ndarray" where
  "np_array es = map (\<lambda>(a, b). [a, b]) es"

text \<open>
  \<^verbatim>\<open>UndirectedGraph.minimum_spanning_tree\<close>. The solver
  \<^verbatim>\<open>menpo.external.PADS.MinimumSpanningTree\<close> is not part of the module; it is the
  parameter \<open>solver\<close>, a function of the graph and the weights that returns a list of pairs.
\<close>

definition minimum_spanning_tree ::
  "('a graph_scheme \<Rightarrow> 'w \<Rightarrow> (int \<times> int) list) \<Rightarrow> 'a graph_scheme \<Rightarrow> 'w \<Rightarrow> int \<Rightarrow> error + graph" where
  "minimum_spanning_tree solver g weights root =
     (case correct_tree_edges (solver g weights) root of
        Inl e \<Rightarrow> Inl e
      | Inr oriented \<Rightarrow> Tree_init (np_array oriented) root)"

section \<open>Graphs with points\<close>

text \<open>
  A \<^verbatim>\<open>PointUndirectedGraph\<close>, \<^verbatim>\<open>PointDirectedGraph\<close> or \<^verbatim>\<open>PointTree\<close> has
  the attributes of its graph and the array \<^verbatim>\<open>points\<close> of the point cloud, one row of
  coordinates per point; \<open>'p\<close> is the type of a row.
\<close>

record 'p pointgraph = graph +
  points :: "'p list"

definition n_points :: "'p pointgraph \<Rightarrow> int" where
  "n_points pg = int (length (points pg))"

text \<open>\<^verbatim>\<open>_check_n_points\<close>\<close>

definition check_n_points :: "'p list \<Rightarrow> ndarray \<Rightarrow> error + unit" where
  "check_n_points pts a =
     (case nd_max a of Inl e \<Rightarrow> Inl e | Inr m \<Rightarrow>
        if \<not> int (length pts) = m + 1 then Inl ValueError else Inr ())"

definition with_points :: "graph \<Rightarrow> 'p list \<Rightarrow> 'p pointgraph" where
  "with_points g pts = graph.extend g \<lparr>points = pts\<rparr>"

definition PointUndirectedGraph_init :: "'p list \<Rightarrow> ndarray \<Rightarrow> error + 'p pointgraph" where
  "PointUndirectedGraph_init pts a =
     (case check_n_points pts a of Inl e \<Rightarrow> Inl e | Inr u \<Rightarrow>
       (case Graph_init UndirectedGraph a of Inl e \<Rightarrow> Inl e | Inr g \<Rightarrow>
          Inr (with_points g pts)))"

definition PointDirectedGraph_init :: "'p list \<Rightarrow> ndarray \<Rightarrow> error + 'p pointgraph" where
  "PointDirectedGraph_init pts a =
     (case check_n_points pts a of Inl e \<Rightarrow> Inl e | Inr u \<Rightarrow>
       (case Graph_init DirectedGraph a of Inl e \<Rightarrow> Inl e | Inr g \<Rightarrow>
          Inr (with_points g pts)))"

definition PointTree_init :: "'p list \<Rightarrow> ndarray \<Rightarrow> int \<Rightarrow> error + 'p pointgraph" where
  "PointTree_init pts a root =
     (case check_n_points pts a of Inl e \<Rightarrow> Inl e | Inr u \<Rightarrow>
       (case Tree_init a root of Inl e \<Rightarrow> Inl e | Inr g \<Rightarrow>
          Inr (with_points g pts)))"

text \<open>\<^verbatim>\<open>points[mask, :]\<close>: the rows at which the mask is true.\<close>

definition select_rows :: "bool list \<Rightarrow> 'p list \<Rightarrow> 'p list" where
  "select_rows msk pts = map snd (filter fst (zip msk pts))"

text \<open>
  \<^verbatim>\<open>PointUndirectedGraph.from_mask\<close>. The helpers \<^verbatim>\<open>mask_adjacency_array\<close> and
  \<^verbatim>\<open>reindex_adjacency_array\<close> of \<^verbatim>\<open>menpo/shape/adjacency.py\<close> are not part of the
  module: they are the parameters \<open>mask_adj\<close> and \<open>reindex\<close>. \<^verbatim>\<open>self.copy()\<close> gives
  an instance with equal attributes.
\<close>

definition PointUndirectedGraph_from_mask ::
  "(bool list \<Rightarrow> ndarray \<Rightarrow> ndarray) \<Rightarrow> (ndarray \<Rightarrow> ndarray) \<Rightarrow>
   'p pointgraph \<Rightarrow> bool list \<Rightarrow> error + 'p pointgraph" where
  "PointUndirectedGraph_from_mask mask_adj reindex self msk =
     (if int (length msk) \<noteq> n_points self then Inl ValueError
      else let pg = self in
        if list_all (\<lambda>b. b) msk then Inr pg
        else let masked_adj = mask_adj msk (adjacency_array pg) in
          if length masked_adj = 0 then Inl ValueError
          else let pg1 = pg\<lparr>adjacency_array := reindex masked_adj\<rparr> in
            (case get_adjacency_list UndirectedGraph (adjacency_array pg1) of
               Inl e \<Rightarrow> Inl e
             | Inr al \<Rightarrow>
                 Inr (pg1\<lparr>adjacency_list := al, points := select_rows msk (points pg1)\<rparr>)))"

text \<open>
  \<^verbatim>\<open>PointDirectedGraph.from_mask\<close> and \<^verbatim>\<open>PointTree.from_mask\<close> have the same body.
  The arguments of \<^verbatim>\<open>mask_adjacency_array_tree\<close> (the parameter \<open>mask_adj_tree\<close>) are
  evaluated before the call: reading \<^verbatim>\<open>pt.predecessors_list\<close> or
  \<^verbatim>\<open>pt.root_vertex\<close> on an instance without that attribute raises AttributeError.
\<close>

definition tree_from_mask ::
  "(bool list \<Rightarrow> ndarray \<Rightarrow> int list list \<Rightarrow> int option list \<Rightarrow> int \<Rightarrow> ndarray) \<Rightarrow>
   (ndarray \<Rightarrow> ndarray) \<Rightarrow> 'p pointgraph \<Rightarrow> bool list \<Rightarrow> error + 'p pointgraph" where
  "tree_from_mask mask_adj_tree reindex self msk =
     (if int (length msk) \<noteq> n_points self then Inl ValueError
      else let pt = self in
        if list_all (\<lambda>b. b) msk then Inr pt
        else
          (case predecessors_list pt of None \<Rightarrow> Inl AttributeError | Some pl \<Rightarrow>
            (case root_vertex pt of None \<Rightarrow> Inl AttributeError | Some root \<Rightarrow>
               let masked_adj = mask_adj_tree msk (adjacency_array pt) (adjacency_list pt) pl root in
               if length masked_adj = 0 then Inl ValueError
               else let pt1 = pt\<lparr>adjacency_array := reindex masked_adj\<rparr>;
                        pt2 = pt1\<lparr>points := select_rows msk (points pt1)\<rparr> in
                 (case get_adjacency_list DirectedGraph (adjacency_array pt2) of
                    Inl e \<Rightarrow> Inl e
                  | Inr al \<Rightarrow>
                     (case get_predecessors_list (adjacency_array pt2) of
                        Inl e \<Rightarrow> Inl e
                      | Inr pl' \<Rightarrow>
                          Inr (pt2\<lparr>adjacency_list := al, predecessors_list := Some pl'\<rparr>))))))"

definition PointDirectedGraph_from_mask ::
  "(bool list \<Rightarrow> ndarray \<Rightarrow> int list list \<Rightarrow> int option list \<Rightarrow> int \<Rightarrow> ndarray) \<Rightarrow>
   (ndarray \<Rightarrow> ndarray) \<Rightarrow> 'p pointgraph \<Rightarrow> bool list \<Rightarrow> error + 'p pointgraph" where
  "PointDirectedGraph_from_mask = tree_from_mask"

definition PointTree_from_mask ::
  "(bool list \<Rightarrow> ndarray \<Rightarrow> int list list \<Rightarrow> int option list \<Rightarrow> int \<Rightarrow> ndarray) \<Rightarrow>
   (ndarray \<Rightarrow> ndarray) \<Rightarrow> 'p pointgraph \<Rightarrow> bool list \<Rightarrow> error + 'p pointgraph" where
  "PointTree_from_mask = tree_from_mask"

section \<open>Connected graphs\<close>

text \<open>
  The property that the tree test is meant to decide needs the graph to be connected: any two
  of its vertices \<open>0, ..., n_vertices - 1\<close> are joined by a chain of edges, taken in either
  direction.
\<close>

definition linked :: "ndarray \<Rightarrow> (int \<times> int) set" where
  "linked a = {(x, y). [x, y] \<in> set a \<or> [y, x] \<in> set a}"

definition single_component :: "'a graph_scheme \<Rightarrow> bool" where
  "single_component g =
     (case n_vertices g of Inl e \<Rightarrow> False
      | Inr n \<Rightarrow> {0..n - 1} \<times> {0..n - 1} \<subseteq> (linked (adjacency_array g))\<^sup>*)"

section \<open>Spanning trees and rooted trees\<close>

text \<open>The end of the pair \<open>m\<close> that \<^verbatim>\<open>_get_children\<close> takes as the child of \<open>p\<close>.\<close>

definition other_end :: "int \<Rightarrow> int \<times> int \<Rightarrow> int" where
  "other_end p m = (if fst m = p then snd m else fst m)"

text \<open>
  The vertices reached so far by \<^verbatim>\<open>_correct_tree_edges\<close>: the root and the children of the
  oriented edges.
\<close>

definition visited :: "int \<Rightarrow> (int \<times> int) list \<Rightarrow> int set" where
  "visited root out = insert root (snd ` set out)"

text \<open>
  The invariant of the \<^verbatim>\<open>while\<close> loop of \<^verbatim>\<open>_correct_tree_edges\<close>, for the edges
  \<open>es\<close> of the solver: every edge is in the pool or oriented in the result, the queue and the
  parents are reached vertices, no edge of the pool touches a reached vertex that has left the
  queue, and the parent of an oriented edge is the root or the child of an earlier one.
\<close>

definition bfs_inv ::
  "(int \<times> int) list \<Rightarrow> int \<Rightarrow> (int \<times> int) list \<Rightarrow> int list \<Rightarrow> (int \<times> int) list \<Rightarrow> bool" where
  "bfs_inv es root pool queue out =
     (length pool + length out = length es
      \<and> set pool \<subseteq> set es
      \<and> (\<forall>e \<in> set es. e \<in> set pool \<or> e \<in> set out \<or> (snd e, fst e) \<in> set out)
      \<and> (\<forall>e \<in> set out. e \<in> set es \<or> (snd e, fst e) \<in> set es)
      \<and> set queue \<subseteq> visited root out
      \<and> fst ` set out \<subseteq> visited root out
      \<and> (\<forall>e \<in> set pool. \<forall>v \<in> visited root out - set queue. \<not> in_item v e)
      \<and> (\<forall>i < length out. fst (out ! i) = root \<or> fst (out ! i) \<in> snd ` set (take i out)))"

text \<open>
  What the solver is assumed to return for a graph of \<open>n\<close> vertices: a spanning tree, that
  is \<open>n - 1\<close> pairs of vertices of the graph that connect, read in either direction, any two
  of its vertices.
\<close>

definition either_way :: "(int \<times> int) list \<Rightarrow> (int \<times> int) set" where
  "either_way es = set es \<union> (set es)\<inverse>"

definition spanning_tree :: "int \<Rightarrow> (int \<times> int) list \<Rightarrow> bool" where
  "spanning_tree n es =
     (int (length es) = n - 1
      \<and> (\<forall>e \<in> set es. 0 \<le> fst e \<and> fst e < n \<and> 0 \<le> snd e \<and> snd e < n)
      \<and> (\<forall>u \<in> {0..<n}. \<forall>v \<in> {0..<n}. (u, v) \<in> (either_way es)\<^sup>*))"

text \<open>
  The edges of an adjacency list as a relation from parent to child, and the adjacency lists
  of forests: the children are vertices, no vertex is a child twice, and no vertex is its own
  descendant.
\<close>

definition child_rel :: "int list list \<Rightarrow> (int \<times> int) set" where
  "child_rel al = {(p, c). 0 \<le> p \<and> p < int (length al) \<and> c \<in> set (al ! nat p)}"

definition forest_list :: "int list list \<Rightarrow> bool" where
  "forest_list al =
     ((\<forall>c \<in> set (concat al). 0 \<le> c \<and> c < int (length al))
      \<and> distinct (concat al) \<and> acyclic (child_rel al))"

text \<open>
  The edge lists that \<^verbatim>\<open>_correct_tree_edges\<close> produces from a spanning tree: every vertex
  but the root is the child of exactly one edge, and the parent of an edge is the root or the
  child of an earlier edge.
\<close>

definition oriented_tree :: "int \<Rightarrow> int \<Rightarrow> (int \<times> int) list \<Rightarrow> bool" where
  "oriented_tree n root out =
     (out \<noteq> [] \<and> int (length out) = n - 1 \<and> distinct (map snd out) \<and> root \<notin> snd ` set out
      \<and> insert root (snd ` set out) = {0..<n}
      \<and> (\<forall>i < length out. fst (out ! i) = root \<or> fst (out ! i) \<in> snd ` set (take i out)))"

section \<open>Example graphs\<close>

text \<open>The undirected graph of the class documentation: six vertices, seven edges.\<close>

definition E9 :: ndarray where
  "E9 = [[0,1],[0,2],[1,2],[1,3],[2,4],[3,4],[3,5]]"

definition G9 :: graph where
  "G9 = \<lparr>cls = UndirectedGraph, adjacency_array = E9,
          adjacency_list = [[1, 2], [0, 2, 3], [0, 1, 4], [1, 4, 5], [2, 3], [3]],
          root_vertex = None, predecessors_list = None\<rparr>"

text \<open>The undirected graph whose only edge is a loop at vertex 0.\<close>

definition loop_graph :: graph where
  "loop_graph = \<lparr>cls = UndirectedGraph, adjacency_array = [[0, 0]], adjacency_list = [[0, 0]],
          root_vertex = None, predecessors_list = None\<rparr>"

text \<open>
  The tree of the class documentation with six vertices, rooted at 0, and the path
  0 - 1 - 2 with the middle vertex given as the root.
\<close>

definition T6 :: graph where
  "T6 = \<lparr>cls = Tree, adjacency_array = [[0,1],[0,2],[1,3],[1,4],[2,5]],
          adjacency_list = [[1, 2], [3, 4], [5], [], [], []],
          root_vertex = Some 0,
          predecessors_list = Some [None, Some 0, Some 0, Some 1, Some 1, Some 2]\<rparr>"

definition T3 :: graph where
  "T3 = \<lparr>cls = Tree, adjacency_array = [[0,1],[1,2]],
          adjacency_list = [[1], [2], []],
          root_vertex = Some 1,
          predecessors_list = Some [None, Some 0, Some 1]\<rparr>"

text \<open>
  A directed graph without a directed cycle, with five vertices and four edges, in two
  components; and the same edges as a tree rooted at 0.
\<close>

definition dag_graph :: graph where
  "dag_graph = \<lparr>cls = DirectedGraph, adjacency_array = [[0,1],[0,2],[1,2],[3,4]],
          adjacency_list = [[1, 2], [2], [], [4], []],
          root_vertex = None, predecessors_list = None\<rparr>"

definition dag_tree :: graph where
  "dag_tree = \<lparr>cls = Tree, adjacency_array = [[0,1],[0,2],[1,2],[3,4]],
          adjacency_list = [[1, 2], [2], [], [4], []],
          root_vertex = Some 0, predecessors_list = Some [None, Some 0, Some 1, None, Some 3]\<rparr>"

text \<open>The directed path 0 - 1 - 2 with three points.\<close>

definition pdg3 :: "int list pointgraph" where
  "pdg3 = \<lparr>cls = DirectedGraph, adjacency_array = [[0,1],[1,2]],
          adjacency_list = [[1], [2], []],
          root_vertex = None, predecessors_list = None, points = [[0, 0], [1, 0], [2, 0]]\<rparr>"

text \<open>
  A spanning tree of the example graph, as an unordered list of pairs, and the tree that
  \<^verbatim>\<open>minimum_spanning_tree\<close> builds from it for the root 3.
\<close>

definition mst_edges :: "(int \<times> int) list" where
  "mst_edges = [(0, 1), (1, 3), (3, 5), (2, 0), (4, 2)]"

definition mst_tree :: graph where
  "mst_tree = \<lparr>cls = Tree, adjacency_array = [[3, 1], [3, 5], [1, 0], [0, 2], [2, 4]],
          adjacency_list = [[2], [0], [4], [1, 5], [], []],
          root_vertex = Some 3,
          predecessors_list = Some [Some 1, Some 3, Some 0, None, Some 2, Some 3]\<rparr>"

section \<open>Properties: unique rows\<close>

lemma first_index_less: "k \<in> set xs \<Longrightarrow> first_index xs k < length xs"
  by (induction xs) auto

lemma first_index_nth: "k \<in> set xs \<Longrightarrow> xs ! first_index xs k = k"
  by (induction xs) auto

lemma first_index_first: "k \<notin> set (take (first_index xs k) xs)"
  by (induction xs) auto

lemma first_index_eq: "i < length xs \<Longrightarrow> xs ! i \<notin> set (take i xs) \<Longrightarrow> first_index xs (xs ! i) = i"
proof (induction xs arbitrary: i)
  case Nil
  then show ?case by simp
next
  case (Cons x xs)
  show ?case
  proof (cases i)
    case 0
    then show ?thesis by simp
  next
    case (Suc j)
    with Cons.prems have "x \<noteq> xs ! j" "j < length xs" "xs ! j \<notin> set (take j xs)" by auto
    with Cons.IH[of j] Suc show ?thesis by simp
  qed
qed

lemma first_index_image:
  "first_index xs ` set xs = {i. i < length xs \<and> xs ! i \<notin> set (take i xs)}"
proof (intro equalityI subsetI)
  fix i assume "i \<in> first_index xs ` set xs"
  then obtain k where "k \<in> set xs" "i = first_index xs k" by auto
  then show "i \<in> {i. i < length xs \<and> xs ! i \<notin> set (take i xs)}"
    using first_index_less[of k xs] first_index_nth[of k xs] first_index_first[of k xs] by simp
next
  fix i assume "i \<in> {i. i < length xs \<and> xs ! i \<notin> set (take i xs)}"
  then have "i < length xs" "first_index xs (xs ! i) = i" using first_index_eq by auto
  then show "i \<in> first_index xs ` set xs" by (metis imageI nth_mem)
qed

lemma sort_np_unique_index:
  "sort (np_unique_index xs) = filter (\<lambda>i. xs ! i \<notin> set (take i xs)) [0..<length xs]"
proof (rule sorted_distinct_set_unique)
  have inj: "inj_on (first_index xs) (set xs)"
    by (rule inj_onI) (metis first_index_nth)
  show "distinct (sort (np_unique_index xs))"
    using inj by (simp add: np_unique_index_def distinct_map)
  show "set (sort (np_unique_index xs)) = set (filter (\<lambda>i. xs ! i \<notin> set (take i xs)) [0..<length xs])"
    using first_index_image[of xs] by (auto simp: np_unique_index_def)
qed (simp_all add: sorted_wrt_filter)

lemma unique_array_rows_first_seen: "unique_array_rows array = first_seen_rows array"
  by (simp add: unique_array_rows_def first_seen_rows_def sort_np_unique_index)

lemma first_seen_rows_snoc:
  "first_seen_rows (xs @ [x]) = first_seen_rows xs @ (if x \<in> set xs then [] else [x])"
proof -
  have "map (\<lambda>i. (xs @ [x]) ! i) (filter (\<lambda>i. (xs @ [x]) ! i \<notin> set (take i (xs @ [x]))) [0..<length xs])
      = map (\<lambda>i. xs ! i) (filter (\<lambda>i. xs ! i \<notin> set (take i xs)) [0..<length xs])"
    by (rule map_cong) (auto intro!: filter_cong simp: nth_append)
  then show ?thesis by (simp add: first_seen_rows_def)
qed

lemma first_seen_rows_Nil: "first_seen_rows [] = []"
  by (simp add: first_seen_rows_def)

lemma set_first_seen_rows: "set (first_seen_rows xs) = set xs"
  by (induction xs rule: rev_induct) (auto simp: first_seen_rows_snoc first_seen_rows_Nil)

lemma distinct_first_seen_rows: "distinct (first_seen_rows xs)"
  by (induction xs rule: rev_induct)
     (auto simp: first_seen_rows_snoc set_first_seen_rows first_seen_rows_Nil)

lemma first_seen_rows_distinct_id: "distinct xs \<Longrightarrow> first_seen_rows xs = xs"
  by (induction xs rule: rev_induct) (auto simp: first_seen_rows_snoc first_seen_rows_Nil)

text \<open>
  C8. The adjacency array stored by the constructor holds exactly the distinct rows of the
  input, each at the place of its first occurrence: it is the list of the rows that do not
  occur at a lower index, in input order.
\<close>

theorem graph_init_unique_rows:
  "Graph_init c a = Inr g \<Longrightarrow>
     adjacency_array g = first_seen_rows a \<and> distinct (adjacency_array g)
     \<and> set (adjacency_array g) = set a"
  by (auto simp: Graph_init_def Let_def unique_array_rows_first_seen distinct_first_seen_rows
        set_first_seen_rows split: if_splits sum.splits)

theorem graph_init_unique_rows_witness:
  "Graph_init UndirectedGraph [[0,1],[0,2],[0,1],[1,2],[0,2],[1,0]]
     = Inr \<lparr>cls = UndirectedGraph, adjacency_array = [[0,1],[0,2],[1,2],[1,0]],
          adjacency_list = [[1, 2, 1], [0, 2, 0], [0, 1]],
          root_vertex = None, predecessors_list = None\<rparr> \<and>
   first_seen_rows [[0,1],[0,2],[0,1],[1,2],[0,2],[1,0::int]] = [[0,1],[0,2],[1,2],[1,0]]"
proof -
  have h: "Graph_init UndirectedGraph [[0,1],[0,2],[0,1],[1,2],[0,2],[1,0]]
     = Inr \<lparr>cls = UndirectedGraph, adjacency_array = [[0,1],[0,2],[1,2],[1,0]],
          adjacency_list = [[1, 2, 1], [0, 2, 0], [0, 1]],
          root_vertex = None, predecessors_list = None\<rparr>" by code_simp
  from graph_init_unique_rows[OF h] h show ?thesis by simp
qed

section \<open>Properties: constructed graphs\<close>

lemma nd_max_eq: "concat a \<noteq> [] \<Longrightarrow> nd_max a = Inr (Max (set (concat a)))"
  by (cases "concat a") (simp_all add: nd_max_def Max.set_eq_fold[symmetric])

lemma nd_min_eq: "concat a \<noteq> [] \<Longrightarrow> nd_min a = Inr (Min (set (concat a)))"
  by (cases "concat a") (simp_all add: nd_min_def Min.set_eq_fold[symmetric])


lemma graph_init_fields:
  assumes "Graph_init c a = Inr g"
  shows "adjacency_array g = first_seen_rows a" "cls g = c" "root_vertex g = None"
    "predecessors_list g = None" "get_adjacency_list c (adjacency_array g) = Inr (adjacency_list g)"
    "concat a \<noteq> []" "nd_min a = Inr 0" "shape1 a = 2"
  using assms
  by (auto simp: Graph_init_def Let_def unique_array_rows_first_seen nd_size_def
           split: if_splits sum.splits)

lemma graph_init_n_vertices:
  assumes "Graph_init c a = Inr g"
  shows "n_vertices g = Inr (Max (set (concat a)) + 1)"
proof -
  have ne: "concat a \<noteq> []" using assms by (rule graph_init_fields)
  then have "set (concat (first_seen_rows a)) \<noteq> {}" by (simp add: set_first_seen_rows)
  then have "concat (first_seen_rows a) \<noteq> []" by (metis set_empty)
  then have "nd_max (first_seen_rows a) = Inr (Max (set (concat (first_seen_rows a))))"
    by (rule nd_max_eq)
  then show ?thesis
    by (simp add: n_vertices_def graph_init_fields(1)[OF assms] set_first_seen_rows)
qed

lemma graph_init_entries:
  assumes "Graph_init c a = Inr g" and "x \<in> set (concat a)"
  shows "0 \<le> x" "x \<le> Max (set (concat a))"
proof -
  have ne: "concat a \<noteq> []" using assms(1) by (rule graph_init_fields)
  have "nd_min a = Inr 0" using assms(1) by (rule graph_init_fields)
  then have "Min (set (concat a)) = 0" using nd_min_eq[OF ne] by simp
  then show "0 \<le> x" using assms(2) by (metis List.finite_set Min_le)
  show "x \<le> Max (set (concat a))" using assms(2) by simp
qed


lemma norm_index_less: "norm_index n i = Some k \<Longrightarrow> k < n"
  by (auto simp: norm_index_def split: if_splits)

lemma norm_index_nonneg: "0 \<le> i \<Longrightarrow> norm_index n i = (if i < int n then Some (nat i) else None)"
  by (auto simp: norm_index_def)

lemma py_index_nonneg:
  "0 \<le> i \<Longrightarrow> py_index xs i = (if i < int (length xs) then Some (xs ! nat i) else None)"
  by (simp add: py_index_def norm_index_nonneg)

lemma set_concat_update:
  assumes "k < length al"
  shows "set (concat (al[k := al ! k @ [w]])) = insert w (set (concat al))"
proof -
  have 1: "al[k := al ! k @ [w]] = take k al @ (al ! k @ [w]) # drop (Suc k) al"
    using assms by (rule upd_conv_take_nth_drop)
  have 2: "al = take k al @ al ! k # drop (Suc k) al"
    using assms by (rule id_take_nth_drop)
  have "set (concat al) = set (concat (take k al)) \<union> set (al ! k) \<union> set (concat (drop (Suc k) al))"
    by (subst 2) (simp add: Un_assoc)
  moreover have "set (concat (al[k := al ! k @ [w]]))
      = set (concat (take k al)) \<union> insert w (set (al ! k)) \<union> set (concat (drop (Suc k) al))"
    by (subst 1) (simp add: Un_assoc)
  ultimately show ?thesis by blast
qed

lemma append_at_props:
  assumes "append_at al v w = Inr al'"
  shows "length al' = length al" "set (concat al') = insert w (set (concat al))"
proof -
  from assms obtain k where k: "norm_index (length al) v = Some k" and al': "al' = al[k := al ! k @ [w]]"
    by (auto simp: append_at_def split: option.splits)
  have "k < length al" using k by (rule norm_index_less)
  then show "length al' = length al" "set (concat al') = insert w (set (concat al))"
    unfolding al' by (simp_all only: set_concat_update length_list_update)
qed

lemma undirected_fill_props:
  "undirected_fill es al = Inr al' \<Longrightarrow>
     length al' = length al \<and> set (concat al') \<subseteq> set (concat al) \<union> set (concat es)"
proof (induction es arbitrary: al)
  case Nil
  then show ?case by simp
next
  case (Cons e es)
  from Cons.prems obtain v1 v2 al1 al2 where
    v: "py_index e 0 = Some v1" "py_index e 1 = Some v2" and
    a: "append_at al v1 v2 = Inr al1" "append_at al1 v2 v1 = Inr al2" and
    r: "undirected_fill es al2 = Inr al'"
    by (auto split: option.splits sum.splits)
  have "v1 \<in> set e" "v2 \<in> set e" using v by (auto dest: py_index_mem)
  with Cons.IH[OF r] append_at_props[OF a(1)] append_at_props[OF a(2)] show ?case by auto
qed

lemma directed_fill_props:
  "directed_fill es al = Inr al' \<Longrightarrow>
     length al' = length al \<and> set (concat al') \<subseteq> set (concat al) \<union> set (concat es)"
proof (induction es arbitrary: al)
  case Nil
  then show ?case by simp
next
  case (Cons e es)
  from Cons.prems obtain v1 v2 al1 where
    v: "py_index e 0 = Some v1" "py_index e 1 = Some v2" and
    a: "append_at al v1 v2 = Inr al1" and
    r: "directed_fill es al1 = Inr al'"
    by (auto split: option.splits sum.splits)
  have "v1 \<in> set e" "v2 \<in> set e" using v by (auto dest: py_index_mem)
  with Cons.IH[OF r] append_at_props[OF a(1)] show ?case by auto
qed

lemma graph_init_adjacency_list:
  assumes "Graph_init c a = Inr g"
  shows "int (length (adjacency_list g)) = Max (set (concat a)) + 1"
    and "set (concat (adjacency_list g)) \<subseteq> set (concat a)"
proof -
  let ?u = "adjacency_array g"
  have u: "?u = first_seen_rows a" using assms by (rule graph_init_fields)
  have nv: "n_vertices g = Inr (Max (set (concat a)) + 1)" using assms by (rule graph_init_n_vertices)
  then have mx: "nd_max ?u = Inr (Max (set (concat a)))"
    by (auto simp: n_vertices_def split: sum.splits)
  have ne: "concat a \<noteq> []" using assms by (rule graph_init_fields)
  then have "Max (set (concat a)) \<in> set (concat a)" by (intro Max_in) auto
  then have ge: "0 \<le> Max (set (concat a))" using graph_init_entries(1)[OF assms] by blast
  have al: "get_adjacency_list c ?u = Inr (adjacency_list g)" using assms by (rule graph_init_fields)
  have "length (adjacency_list g) = nat (Max (set (concat a)) + 1)
      \<and> set (concat (adjacency_list g)) \<subseteq> set (concat ?u)"
    using al mx undirected_fill_props[of ?u "replicate (nat (Max (set (concat a)) + 1)) []" "adjacency_list g"]
      directed_fill_props[of ?u "replicate (nat (Max (set (concat a)) + 1)) []" "adjacency_list g"]
    by (auto simp: get_adjacency_list_def split: if_splits)
  then show "int (length (adjacency_list g)) = Max (set (concat a)) + 1"
    and "set (concat (adjacency_list g)) \<subseteq> set (concat a)"
    using ge by (auto simp: u set_first_seen_rows)
qed

lemma graph_init_wf:
  assumes "Graph_init c a = Inr g" and "n_vertices g = Inr n"
  shows "int (length (adjacency_list g)) = n"
    and "\<forall>x \<in> set (concat (adjacency_list g)). 0 \<le> x \<and> x < n"
proof -
  have n: "n = Max (set (concat a)) + 1"
    using graph_init_n_vertices[OF assms(1)] assms(2) by simp
  show "int (length (adjacency_list g)) = n"
    using graph_init_adjacency_list(1)[OF assms(1)] n by simp
  show "\<forall>x \<in> set (concat (adjacency_list g)). 0 \<le> x \<and> x < n"
  proof
    fix x assume "x \<in> set (concat (adjacency_list g))"
    then have "x \<in> set (concat a)" using graph_init_adjacency_list(2)[OF assms(1)] by blast
    then show "0 \<le> x \<and> x < n" using graph_init_entries[OF assms(1)] n by fastforce
  qed
qed

lemma G9_init: "Graph_init UndirectedGraph E9 = Inr G9"
  by code_simp

text \<open>
  C4, as amended. For every edge array accepted by the constructor, the number of vertices
  is the largest entry of the array plus one, and it is at least 1; it is at least 2 as soon
  as two different vertices occur in the array. (A single loop at vertex 0 is accepted and
  gives one vertex.)
\<close>

theorem n_vertices_max:
  assumes "Graph_init c a = Inr g"
  shows "nd_max a = Inr (Max (set (concat a))) \<and> n_vertices g = Inr (Max (set (concat a)) + 1)
     \<and> 1 \<le> Max (set (concat a)) + 1
     \<and> ((\<exists>x \<in> set (concat a). \<exists>y \<in> set (concat a). x \<noteq> y) \<longrightarrow> 2 \<le> Max (set (concat a)) + 1)"
proof -
  have ne: "concat a \<noteq> []" using assms by (rule graph_init_fields)
  have "nd_min a = Inr 0" using assms(1) by (rule graph_init_fields)
  then have min0: "Min (set (concat a)) = 0" using nd_min_eq[OF ne] by simp
  have "Min (set (concat a)) \<in> set (concat a)" using ne by (intro Min_in) auto
  then have zero: "0 \<in> set (concat a)" using min0 by simp
  then have ge0: "0 \<le> Max (set (concat a))" by simp
  have two: "2 \<le> Max (set (concat a)) + 1"
    if "x \<in> set (concat a)" "y \<in> set (concat a)" "x \<noteq> y" for x y
  proof -
    have "0 \<le> x" "0 \<le> y" using graph_init_entries[OF assms] that by auto
    then have "0 < x \<or> 0 < y" using that by auto
    moreover have "x \<le> Max (set (concat a))" "y \<le> Max (set (concat a))" using that by auto
    ultimately show ?thesis by auto
  qed
  show ?thesis using nd_max_eq[OF ne] graph_init_n_vertices[OF assms] ge0 two by auto
qed

theorem n_vertices_max_witness:
  "Graph_init UndirectedGraph E9 = Inr G9 \<and> nd_max E9 = Inr 5 \<and> n_vertices G9 = Inr 6"
proof -
  have m: "Max (set (concat E9)) = 5" by (simp add: E9_def)
  show ?thesis using n_vertices_max[OF G9_init] G9_init unfolding m by simp
qed

text \<open>
  C4 as stated fails: the array with the single row \<open>[0, 0]\<close> is accepted, and the graph
  has one vertex.
\<close>

theorem n_vertices_two_counterexample:
  "Graph_init UndirectedGraph [[0, 0]] = Inr loop_graph \<and> n_vertices loop_graph = Inr 1"
  by code_simp

section \<open>Properties: path search\<close>

text \<open>
  C10. For every graph and every integer \<open>v\<close>, in the range of the vertices or not, the
  three searches from \<open>v\<close> to \<open>v\<close> return the path \<open>[v]\<close> (the list of that one path
  for \<^verbatim>\<open>find_all_paths\<close>): the test \<^verbatim>\<open>start == end\<close> comes before the range check.
\<close>

theorem find_same_vertex:
  "find_path g v v [] = Inr (Some [v]) \<and> find_all_paths g v v [] = Inr [[v]]
    \<and> find_shortest_path g v v [] = Inr (Some [v])"
  by (simp add: find_path.simps find_all_paths.simps find_shortest_path.simps)

theorem find_same_vertex_witness:
  "n_vertices G9 = Inr 6 \<and> find_path G9 7 7 [] = Inr (Some [7])
    \<and> find_all_paths G9 7 7 [] = Inr [[7]] \<and> find_shortest_path G9 7 7 [] = Inr (Some [7])"
proof -
  have "n_vertices G9 = Inr 6" by code_simp
  then show ?thesis using find_same_vertex[of G9 7] by simp
qed

text \<open>
  C9, as amended. On the example graph \<^verbatim>\<open>has_cycles()\<close> is true,
  \<^verbatim>\<open>find_shortest_path(0, 5)\<close> is \<open>[0, 1, 3, 5]\<close>, and \<^verbatim>\<open>n_paths(0, 4)\<close> is 4: the
  simple paths from 0 to 4 are 0-1-2-4, 0-1-3-4, 0-2-1-3-4 and 0-2-4.
\<close>

theorem example_graph_queries:
  "Graph_init UndirectedGraph E9 = Inr G9 \<and> has_cycles G9 = Inr True
   \<and> find_shortest_path G9 0 5 [] = Inr (Some [0, 1, 3, 5])
   \<and> find_all_paths G9 0 4 [] = Inr [[0, 1, 2, 4], [0, 1, 3, 4], [0, 2, 1, 3, 4], [0, 2, 4]]
   \<and> n_paths G9 0 4 = Inr 4"
  by code_simp

text \<open>C9 as stated fails: \<^verbatim>\<open>n_paths(0, 4)\<close> is not 2.\<close>

theorem example_graph_n_paths_counterexample:
  "Graph_init UndirectedGraph E9 = Inr G9 \<and> n_paths G9 0 4 \<noteq> Inr 2"
  by code_simp

lemma fold_None:
  "(\<And>v. v \<in> set vs \<Longrightarrow> f v None = None) \<Longrightarrow> fold f vs None = None"
  by (induction vs) auto

lemma fold_fixed:
  "(\<And>v. v \<in> set vs \<Longrightarrow> f v x = x) \<Longrightarrow> fold f vs x = x"
  by (induction vs) auto


lemma find_path_outside:
  assumes "int (length (adjacency_list g)) = n"
    and "\<forall>x \<in> set (concat (adjacency_list g)). 0 \<le> x \<and> x < n"
    and "n_vertices g = Inr n" and "en > n - 1 \<or> en < 0"
  shows "find_path g start en path0
     = (if start = en then Inr (Some (path0 @ [start])) else Inr None)"
  using assms
proof (induction g start en path0 rule: find_path.induct)
  case (1 g start en path0)
  show ?case
  proof (cases "start = en \<or> start > n - 1 \<or> start < 0")
    case True
    then show ?thesis using "1.prems"(3) by (subst find_path.simps) auto
  next
    case False
    then have rng: "0 \<le> start" "start < int (length (adjacency_list g))"
      using "1.prems"(1) by auto
    define vs where "vs = adjacency_list g ! nat start"
    have vs: "py_index (adjacency_list g) start = Some vs"
      using rng by (simp add: py_index_nonneg vs_def)
    have "vs \<in> set (adjacency_list g)" using rng by (simp add: vs_def)
    then have in_rng: "0 \<le> v \<and> v < n" if "v \<in> set vs" for v
      using "1.prems"(2) that by auto
    have step: "(case None of Some r \<Rightarrow> Some r | None \<Rightarrow>
                    if v \<notin> set (path0 @ [start]) then
                      (case find_path g v en (path0 @ [start]) of Inl e \<Rightarrow> Some (Inl e)
                       | Inr newpath \<Rightarrow> if truthy newpath then Some (Inr newpath) else None)
                    else None) = None" if v: "v \<in> set vs" for v
    proof (cases "v \<in> set (path0 @ [start])")
      case True
      then show ?thesis by simp
    next
      case nin: False
      have "v \<noteq> en" using in_rng[OF v] "1.prems"(4) by auto
      moreover have "find_path g v en (path0 @ [start])
          = (if v = en then Inr (Some ((path0 @ [start]) @ [v])) else Inr None)"
        using False nin v
        by (intro "1.IH"[OF refl _ "1.prems"(3) _ vs]) (auto simp: "1.prems")
      ultimately show ?thesis using nin by (simp add: truthy_def)
    qed
    have "fold (\<lambda>v acc. case acc of Some r \<Rightarrow> Some r | None \<Rightarrow>
                    if v \<notin> set (path0 @ [start]) then
                      (case find_path g v en (path0 @ [start]) of Inl e \<Rightarrow> Some (Inl e)
                       | Inr newpath \<Rightarrow> if truthy newpath then Some (Inr newpath) else None)
                    else None) vs None = None"
      by (rule fold_None) (use step in simp)
    then show ?thesis
      using False "1.prems"(3) vs
      by (subst find_path.simps) (simp add: Let_def del: set_append set_simps)
  qed
qed


lemma find_all_paths_outside:
  assumes "int (length (adjacency_list g)) = n"
    and "\<forall>x \<in> set (concat (adjacency_list g)). 0 \<le> x \<and> x < n"
    and "n_vertices g = Inr n" and "en > n - 1 \<or> en < 0"
  shows "find_all_paths g start en path0
     = (if start = en then Inr [path0 @ [start]] else Inr [])"
  using assms
proof (induction g start en path0 rule: find_all_paths.induct)
  case (1 g start en path0)
  show ?case
  proof (cases "start = en \<or> start > n - 1 \<or> start < 0")
    case True
    then show ?thesis using "1.prems"(3) by (subst find_all_paths.simps) auto
  next
    case False
    then have rng: "0 \<le> start" "start < int (length (adjacency_list g))"
      using "1.prems"(1) by auto
    define vs where "vs = adjacency_list g ! nat start"
    have vs: "py_index (adjacency_list g) start = Some vs"
      using rng by (simp add: py_index_nonneg vs_def)
    have "vs \<in> set (adjacency_list g)" using rng by (simp add: vs_def)
    then have in_rng: "0 \<le> v \<and> v < n" if "v \<in> set vs" for v
      using "1.prems"(2) that by auto
    have step: "(case Inr [] of Inl e \<Rightarrow> Inl e | Inr paths \<Rightarrow>
                    if v \<notin> set (path0 @ [start]) then
                      (case find_all_paths g v en (path0 @ [start]) of Inl e \<Rightarrow> Inl e
                       | Inr newpaths \<Rightarrow> Inr (paths @ newpaths))
                    else Inr paths) = Inr []" if v: "v \<in> set vs" for v
    proof (cases "v \<in> set (path0 @ [start])")
      case True
      then show ?thesis by simp
    next
      case nin: False
      have "v \<noteq> en" using in_rng[OF v] "1.prems"(4) by auto
      moreover have "find_all_paths g v en (path0 @ [start])
          = (if v = en then Inr [(path0 @ [start]) @ [v]] else Inr [])"
        using False nin v
        by (intro "1.IH"[OF refl _ "1.prems"(3) _ vs]) (auto simp: "1.prems")
      ultimately show ?thesis using nin by simp
    qed
    have "fold (\<lambda>v acc. case acc of Inl e \<Rightarrow> Inl e | Inr paths \<Rightarrow>
                    if v \<notin> set (path0 @ [start]) then
                      (case find_all_paths g v en (path0 @ [start]) of Inl e \<Rightarrow> Inl e
                       | Inr newpaths \<Rightarrow> Inr (paths @ newpaths))
                    else Inr paths) vs (Inr []) = Inr []"
      by (rule fold_fixed) (use step in simp)
    then show ?thesis
      using False "1.prems"(3) vs
      by (subst find_all_paths.simps) (simp add: Let_def del: set_append set_simps)
  qed
qed

lemma find_shortest_path_outside:
  assumes "int (length (adjacency_list g)) = n"
    and "\<forall>x \<in> set (concat (adjacency_list g)). 0 \<le> x \<and> x < n"
    and "n_vertices g = Inr n" and "en > n - 1 \<or> en < 0"
  shows "find_shortest_path g start en path0
     = (if start = en then Inr (Some (path0 @ [start])) else Inr None)"
  using assms
proof (induction g start en path0 rule: find_shortest_path.induct)
  case (1 g start en path0)
  show ?case
  proof (cases "start = en \<or> start > n - 1 \<or> start < 0")
    case True
    then show ?thesis using "1.prems"(3) by (subst find_shortest_path.simps) auto
  next
    case False
    then have rng: "0 \<le> start" "start < int (length (adjacency_list g))"
      using "1.prems"(1) by auto
    define vs where "vs = adjacency_list g ! nat start"
    have vs: "py_index (adjacency_list g) start = Some vs"
      using rng by (simp add: py_index_nonneg vs_def)
    have "vs \<in> set (adjacency_list g)" using rng by (simp add: vs_def)
    then have in_rng: "0 \<le> v \<and> v < n" if "v \<in> set vs" for v
      using "1.prems"(2) that by auto
    have step: "(case Inr None of Inl e \<Rightarrow> Inl e | Inr shortest \<Rightarrow>
                    if v \<notin> set (path0 @ [start]) then
                      (case find_shortest_path g v en (path0 @ [start]) of Inl e \<Rightarrow> Inl e
                       | Inr newpath \<Rightarrow>
                           (if truthy newpath then
                              (if \<not> truthy shortest \<or> length (the newpath) < length (the shortest)
                               then Inr newpath else Inr shortest)
                            else Inr shortest))
                    else Inr shortest) = Inr None" if v: "v \<in> set vs" for v
    proof (cases "v \<in> set (path0 @ [start])")
      case True
      then show ?thesis by simp
    next
      case nin: False
      have "v \<noteq> en" using in_rng[OF v] "1.prems"(4) by auto
      moreover have "find_shortest_path g v en (path0 @ [start])
          = (if v = en then Inr (Some ((path0 @ [start]) @ [v])) else Inr None)"
        using False nin v
        by (intro "1.IH"[OF refl _ "1.prems"(3) _ vs]) (auto simp: "1.prems")
      ultimately show ?thesis using nin by (simp add: truthy_def)
    qed
    have "fold (\<lambda>v acc. case acc of Inl e \<Rightarrow> Inl e | Inr shortest \<Rightarrow>
                    if v \<notin> set (path0 @ [start]) then
                      (case find_shortest_path g v en (path0 @ [start]) of Inl e \<Rightarrow> Inl e
                       | Inr newpath \<Rightarrow>
                           (if truthy newpath then
                              (if \<not> truthy shortest \<or> length (the newpath) < length (the shortest)
                               then Inr newpath else Inr shortest)
                            else Inr shortest))
                    else Inr shortest) vs (Inr None) = Inr None"
      by (rule fold_fixed) (use step in simp)
    then show ?thesis
      using False "1.prems"(3) vs
      by (subst find_shortest_path.simps) (simp add: Let_def del: set_append set_simps)
  qed
qed

text \<open>
  C3, as amended. No search ever rejects a vertex with a range error. On an instance \<open>g\<close>
  whose edge array and adjacency list come out of the constructor (a graph, a tree or a graph
  with points), with \<open>start \<noteq> end\<close>, a start outside the range of the vertices gives the result
  "no path" (\<^verbatim>\<open>None\<close>, or the empty list of paths) at the top-level call exactly as in a
  recursive call (\<open>path\<close> is the path accumulated so far, empty at the top level), and an
  end outside the range, which no search checks, gives "no path" as well.
\<close>

theorem no_path_outside_range:
  fixes g :: "'a graph_scheme"
  assumes "Graph_init c a = Inr g0"
    and "adjacency_array g = adjacency_array g0" and "adjacency_list g = adjacency_list g0"
    and "n_vertices g = Inr n" and "start \<noteq> en"
    and "(start > n - 1 \<or> start < 0) \<or> (en > n - 1 \<or> en < 0)"
  shows "find_path g start en path = Inr None \<and> find_all_paths g start en path = Inr []
    \<and> find_shortest_path g start en path = Inr None"
proof (cases "start > n - 1 \<or> start < 0")
  case True
  then show ?thesis using assms(4,5)
    by (simp add: find_path.simps find_all_paths.simps find_shortest_path.simps)
next
  case False
  then have en: "en > n - 1 \<or> en < 0" using assms(6) by simp
  have "n_vertices g0 = Inr n" using assms(2,4) by (simp add: n_vertices_def)
  from graph_init_wf[OF assms(1) this]
  have wf: "int (length (adjacency_list g)) = n"
    "\<forall>x \<in> set (concat (adjacency_list g)). 0 \<le> x \<and> x < n"
    unfolding assms(3) by simp_all
  show ?thesis
    using find_path_outside[OF wf assms(4) en] find_all_paths_outside[OF wf assms(4) en]
      find_shortest_path_outside[OF wf assms(4) en] assms(5) by simp
qed

theorem no_path_outside_range_witness:
  "Graph_init UndirectedGraph E9 = Inr G9 \<and> n_vertices G9 = Inr 6
   \<and> find_path G9 0 7 [0, 1] = Inr None \<and> find_all_paths G9 0 7 [0, 1] = Inr []
   \<and> find_shortest_path G9 0 7 [0, 1] = Inr None"
proof -
  have n: "n_vertices G9 = Inr 6" by code_simp
  show ?thesis
    using no_path_outside_range[OF G9_init refl refl n, of 0 7 "[0, 1]"] G9_init n by simp
qed

text \<open>
  C3 as stated fails: the top-level calls with the start 7, or with the end -1, on the
  example graph of six vertices return "no path"; they do not raise.
\<close>

theorem no_range_error_counterexample:
  "Graph_init UndirectedGraph E9 = Inr G9 \<and> n_vertices G9 = Inr 6
   \<and> find_path G9 7 0 [] = Inr None \<and> find_all_paths G9 7 0 [] = Inr []
   \<and> find_shortest_path G9 7 0 [] = Inr None
   \<and> find_path G9 0 (-1) [] = Inr None \<and> find_all_paths G9 0 (-1) [] = Inr []
   \<and> find_shortest_path G9 0 (-1) [] = Inr None"
  by code_simp


section \<open>Properties: depth in a tree\<close>

lemma depth_while_shift:
  assumes "depth_while preds root par k = Some (Inr d)"
  shows "depth_while preds root par (k + c) = Some (Inr (d + c))"
proof -
  have "\<forall>d c. r = Inr d \<longrightarrow> depth_while preds root par (k + c) = Some (Inr (d + c))"
    if "depth_while preds root par k = Some r" for r
  proof (rule depth_while.raw_induct[where P = "\<lambda>preds root par k r.
      \<forall>d c. r = Inr d \<longrightarrow> depth_while preds root par (k + c) = Some (Inr (d + c))", OF _ that])
    fix f preds root par k r
    assume IH: "\<And>a b c e y. f a b c e = Some y \<Longrightarrow>
        \<forall>d c'. y = Inr d \<longrightarrow> depth_while a b c (e + c') = Some (Inr (d + c'))"
      and body: "(if par \<noteq> Some root
          then case preds of None \<Rightarrow> Some (Inl AttributeError)
               | Some pl \<Rightarrow>
                   (case par of None \<Rightarrow> Some (Inl TypeError)
                    | Some current \<Rightarrow>
                       (case py_index pl current of None \<Rightarrow> Some (Inl IndexError)
                        | Some p \<Rightarrow> f preds root p (k + 1)))
          else Some (Inr k)) = Some r"
    show "\<forall>d c. r = Inr d \<longrightarrow> depth_while preds root par (k + c) = Some (Inr (d + c))"
    proof (intro allI impI)
      fix d c assume r: "r = Inr d"
      show "depth_while preds root par (k + c) = Some (Inr (d + c))"
      proof (cases "par = Some root")
        case True
        with body r show ?thesis by (subst depth_while.simps) auto
      next
        case False
        with body r obtain pl cur p where
          p: "preds = Some pl" "par = Some cur" "py_index pl cur = Some p"
             "f preds root p (k + 1) = Some (Inr d)"
          by (auto split: option.splits)
        from IH[OF p(4)] have "depth_while preds root p (k + 1 + c) = Some (Inr (d + c))"
          by simp
        then show ?thesis
          using False p by (subst depth_while.simps) (simp add: add.commute add.left_commute)
      qed
    qed
  qed
  with assms show ?thesis by blast
qed

lemma depth_while_reaches:
  assumes "depth_while (Some pl) root par k = Some (Inr d)"
  shows "\<exists>v. par = Some v \<and> reaches_root pl root v"
proof -
  have "\<forall>d pl. r = Inr d \<and> preds = Some pl \<longrightarrow> (\<exists>v. par = Some v \<and> reaches_root pl root v)"
    if "depth_while preds root par k = Some r" for r preds
  proof (rule depth_while.raw_induct[where P = "\<lambda>preds root par k r.
      \<forall>d pl. r = Inr d \<and> preds = Some pl \<longrightarrow> (\<exists>v. par = Some v \<and> reaches_root pl root v)", OF _ that])
    fix f preds root par k r
    assume IH: "\<And>a b c e y. f a b c e = Some y \<Longrightarrow>
        \<forall>d pl. y = Inr d \<and> a = Some pl \<longrightarrow> (\<exists>v. c = Some v \<and> reaches_root pl b v)"
      and body: "(if par \<noteq> Some root
          then case preds of None \<Rightarrow> Some (Inl AttributeError)
               | Some pl \<Rightarrow>
                   (case par of None \<Rightarrow> Some (Inl TypeError)
                    | Some current \<Rightarrow>
                       (case py_index pl current of None \<Rightarrow> Some (Inl IndexError)
                        | Some p \<Rightarrow> f preds root p (k + 1)))
          else Some (Inr k)) = Some r"
    show "\<forall>d pl. r = Inr d \<and> preds = Some pl \<longrightarrow> (\<exists>v. par = Some v \<and> reaches_root pl root v)"
    proof (intro allI impI, elim conjE)
      fix d pl assume r: "r = Inr d" "preds = Some pl"
      show "\<exists>v. par = Some v \<and> reaches_root pl root v"
      proof (cases "par = Some root")
        case True
        then show ?thesis by (simp add: reaches_root.at_root)
      next
        case False
        with body r obtain v p where p: "par = Some v" "py_index pl v = Some p"
            "f preds root p (k + 1) = Some (Inr d)"
          by (auto split: option.splits)
        from IH[OF p(3)] r obtain w where w: "p = Some w" "reaches_root pl root w" by blast
        with p(1,2) show ?thesis by (auto intro: reaches_root.up)
      qed
    qed
  qed
  with assms show ?thesis by blast
qed

lemma reaches_root_depth:
  assumes "reaches_root pl root v"
  shows "\<exists>d. 0 \<le> d \<and> depth_while (Some pl) root (Some v) k = Some (Inr (k + d))"
  using assms
proof (induction arbitrary: k)
  case at_root
  show ?case by (subst depth_while.simps) simp
next
  case (up v p)
  show ?case
  proof (cases "v = root")
    case True
    then show ?thesis by (subst depth_while.simps) simp
  next
    case False
    from up.IH[of "k + 1"] obtain d where
      d: "0 \<le> d" "depth_while (Some pl) root (Some p) (k + 1) = Some (Inr (k + 1 + d))" by blast
    have "depth_while (Some pl) root (Some v) k = Some (Inr (k + (d + 1)))"
      using False up.hyps(1) d(2) by (subst depth_while.simps) (simp add: add.assoc add.commute)
    with d(1) show ?thesis by (intro exI[of _ "d + 1"]) simp
  qed
qed

lemma depth_while_step:
  assumes "v \<noteq> root" and "depth_while (Some pl) root (Some v) 0 = Some (Inr d)"
  shows "\<exists>p. py_index pl v = Some (Some p) \<and> depth_while (Some pl) root (Some p) 0 = Some (Inr (d - 1))"
proof -
  from assms obtain q where q: "py_index pl v = Some q" "depth_while (Some pl) root q 1 = Some (Inr d)"
    by (subst (asm) depth_while.simps) (auto split: option.splits)
  from depth_while_reaches[OF q(2)] obtain p where p: "q = Some p" "reaches_root pl root p"
    by blast
  from reaches_root_depth[OF p(2), of 0] obtain d0 where
    d0: "depth_while (Some pl) root (Some p) 0 = Some (Inr d0)" by auto
  from depth_while_shift[OF d0, of 1] have "depth_while (Some pl) root (Some p) 1 = Some (Inr (d0 + 1))"
    by simp
  with q(2) p have "d = d0 + 1" by simp
  with d0 q(1) p show ?thesis by simp
qed


lemma assign_at_props:
  assumes "assign_at xs i x = Inr xs'"
  shows "length xs' = length xs" "set xs' \<subseteq> insert x (set xs)"
proof -
  from assms obtain k where "xs' = xs[k := x]"
    by (auto simp: assign_at_def split: option.splits)
  then show "length xs' = length xs" "set xs' \<subseteq> insert x (set xs)"
    by (simp_all add: set_update_subset_insert)
qed

lemma predecessors_fill_props:
  "predecessors_fill es pl = Inr pl' \<Longrightarrow>
     length pl' = length pl \<and> set pl' \<subseteq> set pl \<union> Some ` set (concat es)"
proof (induction es arbitrary: pl)
  case Nil
  then show ?case by simp
next
  case (Cons e es)
  from Cons.prems obtain v1 v2 pl1 where
    v: "py_index e 0 = Some v1" "py_index e 1 = Some v2" and
    a: "assign_at pl v2 (Some v1) = Inr pl1" and
    r: "predecessors_fill es pl1 = Inr pl'"
    by (auto split: option.splits sum.splits)
  have "v1 \<in> set e" using v by (auto dest: py_index_mem)
  with Cons.IH[OF r] assign_at_props[OF a] show ?case by (simp add: image_Un) blast
qed

lemma tree_init_fields:
  assumes "Tree_init a root = Inr t"
  obtains g pl where "Graph_init Tree a = Inr g"
    and "t = g\<lparr>root_vertex := Some root, predecessors_list := Some pl\<rparr>"
    and "is_tree g = Inr True" and "check_vertex g root = Inr ()"
    and "get_predecessors_list (adjacency_array g) = Inr pl"
  using assms
  by (auto simp: Tree_init_def split: sum.splits if_splits)

lemma tree_init_predecessors:
  assumes "Tree_init a root = Inr t" and "predecessors_list t = Some pl" and "Some p \<in> set pl"
  shows "check_vertex t p = Inr ()"
proof -
  from assms(1) obtain g pl' where g: "Graph_init Tree a = Inr g"
    and t: "t = g\<lparr>root_vertex := Some root, predecessors_list := Some pl'\<rparr>"
    and pl': "get_predecessors_list (adjacency_array g) = Inr pl'"
    by (rule tree_init_fields)
  have pl: "pl' = pl" using assms(2) t by simp
  have u: "adjacency_array g = first_seen_rows a" using g by (rule graph_init_fields)
  have nv: "n_vertices g = Inr (Max (set (concat a)) + 1)" using g by (rule graph_init_n_vertices)
  from pl' obtain m where "predecessors_fill (adjacency_array g) (replicate (nat (m + 1)) None) = Inr pl'"
    by (auto simp: get_predecessors_list_def split: sum.splits)
  from predecessors_fill_props[OF this] have "set pl' \<subseteq> insert None (Some ` set (concat (adjacency_array g)))"
    by auto
  then have "p \<in> set (concat a)" using assms(3) pl by (auto simp: u set_first_seen_rows)
  then have "0 \<le> p" "p \<le> Max (set (concat a))" using graph_init_entries[OF g] by auto
  moreover have "n_vertices t = n_vertices g" by (simp add: t n_vertices_def)
  ultimately show ?thesis using nv by (simp add: check_vertex_def)
qed

text \<open>
  On the vertices from which the chain of predecessors leads to the root, and on no others,
  the loop of \<^verbatim>\<open>depth_of_vertex\<close> reaches the root; there the depth of a vertex is the
  depth of its parent plus 1, and the depth of the root is 0.
\<close>

lemma depth_of_vertex_along_chain:
  assumes "Tree_init a root = Inr t"
  shows "depth_of_vertex t root = Some (Inr 0)
    \<and> (\<forall>v d. v \<noteq> root \<and> depth_of_vertex t v = Some (Inr d) \<longrightarrow>
          (\<exists>p. parent t v = Inr (Some p) \<and> depth_of_vertex t p = Some (Inr (d - 1))))
    \<and> (\<forall>v pl. v \<noteq> root \<and> check_vertex t v = Inr () \<and> predecessors_list t = Some pl \<longrightarrow>
          ((\<exists>d. depth_of_vertex t v = Some (Inr d)) \<longleftrightarrow> reaches_root pl root v))"
proof -
  from assms obtain g pl where g: "Graph_init Tree a = Inr g"
    and t: "t = g\<lparr>root_vertex := Some root, predecessors_list := Some pl\<rparr>"
    and cr: "check_vertex g root = Inr ()"
    by (rule tree_init_fields)
  have nt: "n_vertices t = n_vertices g" by (simp add: t n_vertices_def)
  have rt: "root_vertex t = Some root" and plt: "predecessors_list t = Some pl" by (simp_all add: t)
  have cvt: "check_vertex t v = check_vertex g v" for v by (simp add: check_vertex_def nt)
  have dv: "depth_of_vertex t v = depth_while (Some pl) root (Some v) 0" if "check_vertex t v = Inr ()" for v
    using that by (simp add: depth_of_vertex_def rt plt)
  have dv_Inr: "check_vertex t v = Inr ()" if "depth_of_vertex t v = Some (Inr d)" for v d
    using that by (cases "check_vertex t v") (auto simp: depth_of_vertex_def)
  have 1: "depth_of_vertex t root = Some (Inr 0)"
    using cr by (subst dv) (simp add: cvt, subst depth_while.simps, simp)
  have 2: "\<exists>p. parent t v = Inr (Some p) \<and> depth_of_vertex t p = Some (Inr (d - 1))"
    if v: "v \<noteq> root" "depth_of_vertex t v = Some (Inr d)" for v d
  proof -
    have cv: "check_vertex t v = Inr ()" using v(2) by (rule dv_Inr)
    with v(2) have "depth_while (Some pl) root (Some v) 0 = Some (Inr d)" by (simp add: dv)
    from depth_while_step[OF v(1) this] obtain p where
      p: "py_index pl v = Some (Some p)" "depth_while (Some pl) root (Some p) 0 = Some (Inr (d - 1))"
      by blast
    have "Some p \<in> set pl" using p(1) by (rule py_index_mem)
    then have cp: "check_vertex t p = Inr ()" using tree_init_predecessors[OF assms plt] by simp
    have "parent t v = Inr (Some p)" using cv p(1) by (simp add: parent_def plt)
    moreover have "depth_of_vertex t p = Some (Inr (d - 1))" using p(2) cp by (simp add: dv)
    ultimately show ?thesis by blast
  qed
  have 3: "(\<exists>d. depth_of_vertex t v = Some (Inr d)) \<longleftrightarrow> reaches_root pl' root v"
    if v: "v \<noteq> root" "check_vertex t v = Inr ()" "predecessors_list t = Some pl'" for v pl'
  proof -
    have pl': "pl' = pl" using v(3) plt by simp
    show ?thesis unfolding pl' dv[OF v(2)]
      using depth_while_reaches[of pl root "Some v" 0] reaches_root_depth[of pl root v 0]
      by auto
  qed
  from 1 2 3 show ?thesis by blast
qed

text \<open>The tree of the class documentation, rooted at its source 0.\<close>

lemma depth_of_vertex_documented_tree:
  "Tree_init [[0,1],[0,2],[1,3],[1,4],[2,5]] 0 = Inr T6 \<and> depth_of_vertex T6 0 = Some (Inr 0)
    \<and> depth_of_vertex T6 4 = Some (Inr 2) \<and> parent T6 4 = Inr (Some 1)
    \<and> depth_of_vertex T6 1 = Some (Inr 1)"
proof -
  have h: "Tree_init [[0,1],[0,2],[1,3],[1,4],[2,5]] 0 = Inr T6" by code_simp
  have d4: "depth_of_vertex T6 4 = Some (Inr 2)" by code_simp
  have p4: "parent T6 4 = Inr (Some 1)" by code_simp
  from depth_of_vertex_along_chain[OF h] d4 obtain p where
    "parent T6 4 = Inr (Some p)" "depth_of_vertex T6 p = Some (Inr (2 - 1))"
    by (metis zero_neq_numeral)
  with p4 have "depth_of_vertex T6 1 = Some (Inr 1)" by simp
  with depth_of_vertex_along_chain[OF h] h d4 p4 show ?thesis by simp
qed

text \<open>
  C7. The tree constructor accepts the path 0 - 1 - 2 with the middle vertex 1 as the root:
  it checks only that the root is in range. In that tree the entry of the root in the
  predecessors list is 0, where the documentation of the list has \<^verbatim>\<open>None\<close> for the root;
  vertex 0 is not the root and has no parent; and \<^verbatim>\<open>depth_of_vertex(0)\<close> raises TypeError
  where a depth is documented. The depth of vertex 0 is not the depth of its parent plus 1:
  neither exists.
\<close>

theorem depth_of_vertex_root_not_source:
  "Tree_init [[0,1],[1,2]] 1 = Inr T3 \<and> root_vertex T3 = Some 1
    \<and> predecessors_list T3 = Some [None, Some 0, Some 1]
    \<and> parent T3 1 = Inr (Some 0) \<and> parent T3 0 = Inr None
    \<and> depth_of_vertex T3 1 = Some (Inr 0) \<and> depth_of_vertex T3 2 = Some (Inr 1)
    \<and> depth_of_vertex T3 0 = Some (Inl TypeError)"
  by code_simp


section \<open>Properties: the tree test\<close>

lemma dag_graph_component:
  "(0, x) \<in> (linked [[0,1],[0,2],[1,2],[3,4]])\<^sup>* \<Longrightarrow> x \<in> {0, 1, 2}"
  by (induction rule: rtrancl_induct) (auto simp: linked_def)

text \<open>
  C1. \<^verbatim>\<open>is_tree()\<close> is true on a directed graph that is not connected: the graph has no
  directed cycle and one edge less than it has vertices, but the edges 0-1, 0-2, 1-2 close an
  undirected cycle and leave the vertices 3 and 4 in a component of their own. The tree
  constructor accepts the same edges, and \<^verbatim>\<open>depth_of_vertex(3)\<close> then raises.
\<close>

theorem is_tree_disconnected:
  "Graph_init DirectedGraph [[0,1],[0,2],[1,2],[3,4]] = Inr dag_graph
   \<and> has_cycles dag_graph = Inr False \<and> n_edges dag_graph = 4 \<and> n_vertices dag_graph = Inr 5
   \<and> is_tree dag_graph = Inr True \<and> \<not> single_component dag_graph
   \<and> Tree_init [[0,1],[0,2],[1,2],[3,4]] 0 = Inr dag_tree
   \<and> depth_of_vertex dag_tree 3 = Some (Inl TypeError)"
proof -
  have nv: "n_vertices dag_graph = Inr 5" by code_simp
  have "(0, 3) \<notin> (linked (adjacency_array dag_graph))\<^sup>*"
    using dag_graph_component[of 3] by (auto simp: dag_graph_def)
  moreover have "((0::int), (3::int)) \<in> {0..5 - 1} \<times> {0..5 - 1}" by simp
  ultimately have "\<not> single_component dag_graph"
    unfolding single_component_def nv by (simp only: sum.case) blast
  moreover have "Graph_init DirectedGraph [[0,1],[0,2],[1,2],[3,4]] = Inr dag_graph
   \<and> has_cycles dag_graph = Inr False \<and> n_edges dag_graph = 4 
   \<and> is_tree dag_graph = Inr True 
   \<and> Tree_init [[0,1],[0,2],[1,2],[3,4]] 0 = Inr dag_tree
   \<and> depth_of_vertex dag_tree 3 = Some (Inl TypeError)" by code_simp
  ultimately show ?thesis using nv by simp
qed

section \<open>Properties: masking\<close>

lemma pdg3_init: "PointDirectedGraph_init [[0, 0], [1, 0], [2, 0]] [[0,1],[1,2]] = Inr pdg3"
  by code_simp

text \<open>
  C2. On a \<^verbatim>\<open>PointDirectedGraph\<close> a mask that is not all true and keeps the edge
  \<open>[0, 1]\<close> gives no masked graph: \<^verbatim>\<open>from_mask\<close> reads \<^verbatim>\<open>predecessors_list\<close>,
  which only a tree has, and raises AttributeError, whatever the helpers compute.
\<close>

theorem directed_from_mask_attribute_error:
  "PointDirectedGraph_init [[0, 0], [1, 0], [2, 0]] [[0,1],[1,2]] = Inr pdg3
   \<and> PointDirectedGraph_from_mask mask_adj_tree reindex pdg3 [True, True, False] = Inl AttributeError"
  using pdg3_init
  by (simp add: PointDirectedGraph_from_mask_def tree_from_mask_def n_points_def pdg3_def)

text \<open>
  C6. On a \<^verbatim>\<open>PointDirectedGraph\<close> a mask that removes every edge does not fail with the
  validation error (ValueError): it raises AttributeError.
\<close>

theorem directed_from_mask_no_edges_attribute_error:
  "PointDirectedGraph_init [[0, 0], [1, 0], [2, 0]] [[0,1],[1,2]] = Inr pdg3
   \<and> PointDirectedGraph_from_mask mask_adj_tree reindex pdg3 [True, False, True] = Inl AttributeError"
  using pdg3_init
  by (simp add: PointDirectedGraph_from_mask_def tree_from_mask_def n_points_def pdg3_def)

text \<open>
  The same holds for every \<^verbatim>\<open>PointDirectedGraph\<close> and every mask of the right length
  that is not all true.
\<close>

lemma directed_from_mask_always_fails:
  assumes "PointDirectedGraph_init pts a = Inr pg" and "int (length msk) = n_points pg"
    and "\<not> list_all (\<lambda>b. b) msk"
  shows "PointDirectedGraph_from_mask mask_adj_tree reindex pg msk = Inl AttributeError"
proof -
  from assms(1) obtain g where "Graph_init DirectedGraph a = Inr g" "pg = with_points g pts"
    by (auto simp: PointDirectedGraph_init_def split: sum.splits)
  then have "predecessors_list pg = None"
    using graph_init_fields(4)[of DirectedGraph a g]
    by (simp add: with_points_def graph.defs)
  then show ?thesis using assms(2,3)
    by (simp add: PointDirectedGraph_from_mask_def tree_from_mask_def)
qed

text \<open>
  The sibling \<^verbatim>\<open>PointUndirectedGraph.from_mask\<close> does what is claimed: it fails with
  ValueError when the masked edge array is empty, and otherwise returns the instance with
  the reindexed masked edges, the adjacency list built from them and the selected points.
\<close>

lemma undirected_from_mask_result:
  assumes "int (length msk) = n_points pg" and "\<not> list_all (\<lambda>b. b) msk"
  shows "PointUndirectedGraph_from_mask mask_adj reindex pg msk =
     (if mask_adj msk (adjacency_array pg) = [] then Inl ValueError
      else case get_adjacency_list UndirectedGraph (reindex (mask_adj msk (adjacency_array pg))) of
             Inl e \<Rightarrow> Inl e
           | Inr al \<Rightarrow> Inr (pg\<lparr>adjacency_array := reindex (mask_adj msk (adjacency_array pg)),
                              adjacency_list := al, points := select_rows msk (points pg)\<rparr>))"
  using assms by (auto simp: PointUndirectedGraph_from_mask_def Let_def split: sum.splits)

text \<open>A mask that is all true gives the copy of the instance, in the three classes.\<close>

lemma from_mask_all_true:
  assumes "int (length msk) = n_points pg" and "list_all (\<lambda>b. b) msk"
  shows "PointUndirectedGraph_from_mask mask_adj reindex pg msk = Inr pg"
    and "PointDirectedGraph_from_mask mask_adj_tree reindex pg msk = Inr pg"
    and "PointTree_from_mask mask_adj_tree reindex pg msk = Inr pg"
  using assms
  by (simp_all add: PointUndirectedGraph_from_mask_def PointDirectedGraph_from_mask_def
        PointTree_from_mask_def tree_from_mask_def)


section \<open>Properties: minimum spanning tree\<close>

lemma get_children_filter:
  "get_children p (filter (in_item p) edges) = Inr (map (other_end p) (filter (in_item p) edges))"
  by (induction edges) (auto simp: in_item_def other_end_def)

lemma fold_remove1_filter_gen:
  assumes "mset as \<subseteq># mset (filter P zs)"
  shows "filter (\<lambda>x. \<not> P x) (fold remove1 as zs) = filter (\<lambda>x. \<not> P x) zs
       \<and> mset (filter P (fold remove1 as zs)) = mset (filter P zs) - mset as"
  using assms
proof (induction as arbitrary: zs)
  case Nil
  then show ?case by simp
next
  case (Cons a as)
  have "a \<in># mset (a # as)" by simp
  with Cons.prems have a: "a \<in># mset (filter P zs)" by (rule mset_subset_eqD)
  then have Pa: "P a" and az: "a \<in> set zs" by auto
  have sub: "mset as \<subseteq># mset (filter P (remove1 a zs))"
    using Cons.prems Pa by (simp add: filter_remove1 insert_subset_eq_iff)
  have 1: "filter (\<lambda>x. \<not> P x) (remove1 a zs) = filter (\<lambda>x. \<not> P x) zs"
    using Pa by (simp add: filter_remove1 remove1_idem)
  have 2: "mset (filter P (remove1 a zs)) = mset (filter P zs) - {#a#}"
    by (simp add: filter_remove1)
  from Cons.IH[OF sub] 1 2 show ?case by simp
qed

lemma fold_remove1_filter:
  "fold remove1 (filter P xs) xs = filter (\<lambda>x. \<not> P x) xs"
proof -
  let ?r = "fold remove1 (filter P xs) xs"
  from fold_remove1_filter_gen[of "filter P xs" P xs]
  have 1: "filter (\<lambda>x. \<not> P x) ?r = filter (\<lambda>x. \<not> P x) xs" and 2: "mset (filter P ?r) = {#}"
    by simp_all
  from 2 have "filter P ?r = []" by simp
  then have "\<forall>x \<in> set ?r. \<not> P x" by (simp add: filter_empty_conv)
  then have "filter (\<lambda>x. \<not> P x) ?r = ?r" by (simp add: filter_id_conv)
  with 1 show ?thesis by simp
qed

lemma correct_tree_edges_while_Nil:
  "correct_tree_edges_while pool [] out = Inr out"
  by (subst correct_tree_edges_while.simps) simp

lemma correct_tree_edges_while_Cons:
  "correct_tree_edges_while pool (v # rest) out =
     correct_tree_edges_while (filter (\<lambda>e. \<not> in_item v e) pool)
       (rest @ map (other_end v) (filter (in_item v) pool))
       (out @ map (Pair v) (map (other_end v) (filter (in_item v) pool)))"
  by (subst correct_tree_edges_while.simps)
     (simp add: Let_def get_children_filter fold_remove1_filter
        fold_snoc[of "\<lambda>x. x", simplified] fold_snoc[of "Pair v"])

lemma bfs_inv_init: "bfs_inv es root es [root] []"
  by (simp add: bfs_inv_def visited_def)

lemma other_end_cases:
  assumes "in_item v e"
  shows "(v, other_end v e) = e \<or> (v, other_end v e) = (snd e, fst e)"
  using assms by (cases e) (auto simp: in_item_def other_end_def)

lemma bfs_inv_step:
  assumes inv: "bfs_inv es root pool (v # rest) out"
  defines "ces \<equiv> filter (in_item v) pool"
  defines "new \<equiv> map (Pair v) (map (other_end v) ces)"
  shows "bfs_inv es root (filter (\<lambda>e. \<not> in_item v e) pool)
           (rest @ map (other_end v) ces) (out @ new)"
proof -
  let ?pool' = "filter (\<lambda>e. \<not> in_item v e) pool"
  let ?ch = "map (other_end v) ces"
  from inv have a: "length pool + length out = length es"
    and b: "set pool \<subseteq> set es"
    and c: "\<forall>e \<in> set es. e \<in> set pool \<or> e \<in> set out \<or> (snd e, fst e) \<in> set out"
    and d: "\<forall>e \<in> set out. e \<in> set es \<or> (snd e, fst e) \<in> set es"
    and e: "set (v # rest) \<subseteq> visited root out"
    and f: "fst ` set out \<subseteq> visited root out"
    and g: "\<forall>e \<in> set pool. \<forall>w \<in> visited root out - set (v # rest). \<not> in_item w e"
    and h: "\<forall>i < length out. fst (out ! i) = root \<or> fst (out ! i) \<in> snd ` set (take i out)"
    by (simp_all add: bfs_inv_def)
  have snd_new: "snd ` set new = set ?ch" by (force simp: new_def)
  have fst_new: "fst ` set new \<subseteq> {v}" by (auto simp: new_def)
  have vis: "visited root (out @ new) = visited root out \<union> set ?ch"
    using snd_new by (auto simp: visited_def image_Un)
  have new_es: "e' \<in> set es \<or> (snd e', fst e') \<in> set es" if "e' \<in> set new" for e'
  proof -
    from that obtain e0 where e0: "e0 \<in> set pool" "in_item v e0" "e' = (v, other_end v e0)"
      by (auto simp: new_def ces_def)
    from other_end_cases[OF e0(2)] e0 b show ?thesis by (cases e0) auto
  qed
  have a': "length ?pool' + length (out @ new) = length es"
    using a sum_length_filter_compl[of "in_item v" pool] by (simp add: new_def ces_def)
  have b': "set ?pool' \<subseteq> set es" using b by auto
  have c': "\<forall>e \<in> set es. e \<in> set ?pool' \<or> e \<in> set (out @ new) \<or> (snd e, fst e) \<in> set (out @ new)"
  proof
    fix e0 assume "e0 \<in> set es"
    with c consider "e0 \<in> set pool" "\<not> in_item v e0" | "e0 \<in> set pool" "in_item v e0"
      | "e0 \<in> set out \<or> (snd e0, fst e0) \<in> set out" by blast
    then show "e0 \<in> set ?pool' \<or> e0 \<in> set (out @ new) \<or> (snd e0, fst e0) \<in> set (out @ new)"
    proof cases
      case 1
      then show ?thesis by simp
    next
      case 2
      then have "(v, other_end v e0) \<in> set new" by (auto simp: new_def ces_def)
      with other_end_cases[OF 2(2)] show ?thesis by auto
    next
      case 3
      then show ?thesis by auto
    qed
  qed
  have d': "\<forall>e \<in> set (out @ new). e \<in> set es \<or> (snd e, fst e) \<in> set es"
    using d new_es by auto
  have e': "set (rest @ ?ch) \<subseteq> visited root (out @ new)"
    using e vis by auto
  have vv: "v \<in> visited root out" using e by simp
  have f': "fst ` set (out @ new) \<subseteq> visited root (out @ new)"
    using f fst_new vv vis by (auto simp: image_Un)
  have g': "\<forall>e \<in> set ?pool'. \<forall>w \<in> visited root (out @ new) - set (rest @ ?ch). \<not> in_item w e"
  proof (intro ballI)
    fix e0 w assume e0: "e0 \<in> set ?pool'" and w: "w \<in> visited root (out @ new) - set (rest @ ?ch)"
    from w vis have w1: "w \<in> visited root out" "w \<notin> set rest" by auto
    show "\<not> in_item w e0"
    proof (cases "w = v")
      case True
      with e0 show ?thesis by simp
    next
      case False
      with w1 have "w \<in> visited root out - set (v # rest)" by simp
      with g e0 show ?thesis by auto
    qed
  qed
  have h': "\<forall>i < length (out @ new). fst ((out @ new) ! i) = root
      \<or> fst ((out @ new) ! i) \<in> snd ` set (take i (out @ new))"
  proof (intro allI impI)
    fix i assume i: "i < length (out @ new)"
    show "fst ((out @ new) ! i) = root \<or> fst ((out @ new) ! i) \<in> snd ` set (take i (out @ new))"
    proof (cases "i < length out")
      case True
      with h show ?thesis by (simp add: nth_append)
    next
      case False
      then have "(out @ new) ! i \<in> set new" using i by (simp add: nth_append)
      then have "fst ((out @ new) ! i) = v" using fst_new by auto
      moreover have "set out \<subseteq> set (take i (out @ new))" using False by simp
      ultimately show ?thesis using vv by (auto simp: visited_def)
    qed
  qed
  show ?thesis unfolding bfs_inv_def using a' b' c' d' e' f' g' h' by blast
qed

lemma bfs_result:
  assumes "bfs_inv es root pool queue out"
  shows "\<exists>res pool'. correct_tree_edges_while pool queue out = Inr res \<and> bfs_inv es root pool' [] res"
  using assms
proof (induction "2 * length pool + length queue" arbitrary: pool queue out rule: less_induct)
  case less
  show ?case
  proof (cases queue)
    case Nil
    with less.prems show ?thesis by (auto simp: correct_tree_edges_while_Nil)
  next
    case (Cons v rest)
    let ?ces = "filter (in_item v) pool"
    let ?pool' = "filter (\<lambda>e. \<not> in_item v e) pool"
    have "length ?pool' + length ?ces = length pool"
      using sum_length_filter_compl[of "in_item v" pool] by simp
    then have m: "2 * length ?pool' + length (rest @ map (other_end v) ?ces) < 2 * length pool + length queue"
      unfolding Cons by simp
    have "bfs_inv es root ?pool' (rest @ map (other_end v) ?ces)
         (out @ map (Pair v) (map (other_end v) ?ces))"
      using less.prems unfolding Cons by (rule bfs_inv_step)
    from less.hyps[OF m this] show ?thesis
      unfolding Cons correct_tree_edges_while_Cons .
  qed
qed

lemma bfs_final:
  assumes inv: "bfs_inv es root pool [] out" and st: "spanning_tree n es"
    and root: "0 \<le> root" "root < n"
  shows "visited root out = {0..<n}" and "length out = length es"
    and "distinct (map snd out)" and "root \<notin> snd ` set out"
proof -
  from inv have a: "length pool + length out = length es"
    and c: "\<forall>e \<in> set es. e \<in> set pool \<or> e \<in> set out \<or> (snd e, fst e) \<in> set out"
    and d: "\<forall>e \<in> set out. e \<in> set es \<or> (snd e, fst e) \<in> set es"
    and f: "fst ` set out \<subseteq> visited root out"
    and g: "\<forall>e \<in> set pool. \<forall>w \<in> visited root out. \<not> in_item w e"
    by (simp_all add: bfs_inv_def)
  from st have len: "int (length es) = n - 1"
    and rng: "\<forall>e \<in> set es. 0 \<le> fst e \<and> fst e < n \<and> 0 \<le> snd e \<and> snd e < n"
    and conn: "\<forall>u \<in> {0..<n}. \<forall>v \<in> {0..<n}. (u, v) \<in> (either_way es)\<^sup>*"
    by (simp_all add: spanning_tree_def)
  have snd_vis: "snd ` set out \<subseteq> visited root out" by (auto simp: visited_def)
  have reach: "u \<in> visited root out" if "(root, u) \<in> (either_way es)\<^sup>*" for u
    using that
  proof (induction rule: rtrancl_induct)
    case base
    show ?case by (simp add: visited_def)
  next
    case (step y z)
    from step.hyps(2) obtain e where e: "e \<in> set es" "in_item y e" "in_item z e"
      "e = (y, z) \<or> e = (z, y)"
      by (auto simp: either_way_def in_item_def)
    from g step.IH e(2) have "e \<notin> set pool" by blast
    with c e(1) have "e \<in> set out \<or> (snd e, fst e) \<in> set out" by blast
    with e(4) have "(y, z) \<in> set out \<or> (z, y) \<in> set out" by auto
    then have "z \<in> fst ` set out \<union> snd ` set out" by force
    with f snd_vis show ?case by blast
  qed
  have sub1: "{0..<n} \<subseteq> visited root out"
    using conn root reach by auto
  have "snd ` set out \<subseteq> {0..<n}" using d rng by fastforce
  then have sub2: "visited root out \<subseteq> {0..<n}" using root by (auto simp: visited_def)
  from sub1 sub2 show vis: "visited root out = {0..<n}" by blast
  have "card (visited root out) = nat n" using vis by simp
  moreover have "card (visited root out) \<le> Suc (card (snd ` set out))"
    unfolding visited_def by (simp add: card_insert_le_m1)
  moreover have c2: "card (snd ` set out) \<le> length out"
    by (metis card_length length_map set_map)
  moreover have "length out \<le> length es" using a by simp
  moreover have "Suc (length es) = nat n" using len by linarith
  ultimately have eq: "card (snd ` set out) = length out" "length out = length es"
    "card (visited root out) = Suc (card (snd ` set out))"
    by linarith+
  show "length out = length es" by (rule eq)
  have "card (set (map snd out)) = length (map snd out)" using eq(1) by simp
  then show "distinct (map snd out)" by (rule card_distinct)
  show "root \<notin> snd ` set out"
  proof
    assume "root \<in> snd ` set out"
    then have "visited root out = snd ` set out" by (auto simp: visited_def)
    with eq(3) show False by simp
  qed
qed

lemma one_parent_chain:
  assumes sv: "single_valued (R\<inverse>)" and az: "(a, z) \<in> R\<^sup>*" and bz: "(b, z) \<in> R\<^sup>*"
  shows "(a, b) \<in> R\<^sup>* \<or> (b, a) \<in> R\<^sup>*"
  using az bz
proof (induction rule: rtrancl_induct)
  case base
  then show ?case by simp
next
  case (step y z)
  from step.prems show ?case
  proof (cases rule: rtranclE)
    case base
    with step.hyps show ?thesis by auto
  next
    case (step w)
    from sv step(2) \<open>(y, z) \<in> R\<close> have "w = y" by (auto simp: single_valued_def)
    with step(1) step.IH show ?thesis by simp
  qed
qed

lemma siblings_disjoint:
  assumes sv: "single_valued (R\<inverse>)" and ac: "acyclic R"
    and y: "(node, y) \<in> R" and y': "(node, y') \<in> R" and ne: "y \<noteq> y'"
  shows "R\<^sup>* `` {y} \<inter> R\<^sup>* `` {y'} = {}"
proof -
  have no: "(u, u') \<notin> R\<^sup>*" if "(node, u) \<in> R" "(node, u') \<in> R" "u \<noteq> u'" for u u'
  proof
    assume "(u, u') \<in> R\<^sup>*"
    with that(3) have "(u, u') \<in> R\<^sup>+" by (simp add: rtrancl_eq_or_trancl)
    then obtain w where w: "(u, w) \<in> R\<^sup>*" "(w, u') \<in> R"
      by (metis tranclD2)
    from sv w(2) that(2) have "w = node" by (auto simp: single_valued_def)
    with w(1) that(1) have "(node, node) \<in> R\<^sup>+" by (simp add: rtrancl_into_trancl2)
    with ac show False by (simp add: acyclic_def)
  qed
  show ?thesis
  proof (rule ccontr)
    assume "R\<^sup>* `` {y} \<inter> R\<^sup>* `` {y'} \<noteq> {}"
    then obtain z where "(y, z) \<in> R\<^sup>*" "(y', z) \<in> R\<^sup>*" by auto
    from one_parent_chain[OF sv this] no[OF y y' ne] no[OF y' y] ne show False by auto
  qed
qed

lemma distinct_concat_nth:
  assumes "distinct (concat al)" and "i < length al" and "j < length al" and "i \<noteq> j"
  shows "set (al ! i) \<inter> set (al ! j) = {}"
  using assms
proof (induction al arbitrary: i j)
  case Nil
  then show ?case by simp
next
  case (Cons xs al)
  show ?case
  proof (cases i)
    case 0
    with Cons.prems obtain j' where "j = Suc j'" "j' < length al" by (cases j) auto
    then have "al ! j' \<in> set al" by simp
    then have "set (al ! j') \<subseteq> set (concat al)" by auto
    with Cons.prems(1) 0 \<open>j = Suc j'\<close> show ?thesis by auto
  next
    case (Suc i')
    show ?thesis
    proof (cases j)
      case 0
      have "al ! i' \<in> set al" using Suc Cons.prems(2) by simp
      then have "set (al ! i') \<subseteq> set (concat al)" by auto
      with Cons.prems(1) 0 Suc show ?thesis by auto
    next
      case (Suc j')
      with Cons.prems \<open>i = Suc i'\<close> Cons.IH[of i' j'] show ?thesis by simp
    qed
  qed
qed

lemma forest_list_single_valued:
  assumes "forest_list al"
  shows "single_valued ((child_rel al)\<inverse>)"
proof (rule single_valuedI)
  fix c p q assume "(c, p) \<in> (child_rel al)\<inverse>" "(c, q) \<in> (child_rel al)\<inverse>"
  then have p: "0 \<le> p" "p < int (length al)" "c \<in> set (al ! nat p)"
    and q: "0 \<le> q" "q < int (length al)" "c \<in> set (al ! nat q)"
    by (auto simp: child_rel_def)
  have d: "distinct (concat al)" using assms by (simp add: forest_list_def)
  show "p = q"
  proof (rule ccontr)
    assume "p \<noteq> q"
    then have "nat p \<noteq> nat q" using p q by simp
    moreover have "nat p < length al" "nat q < length al" using p q by simp_all
    ultimately have "set (al ! nat p) \<inter> set (al ! nat q) = {}"
      using d by (intro distinct_concat_nth)
    with p(3) q(3) show False by blast
  qed
qed

lemma forest_list_children:
  assumes "forest_list al" and "0 \<le> node" and "node < int (length al)"
  shows "distinct (al ! nat node)" and "child_rel al `` {node} = set (al ! nat node)"
    and "\<forall>y \<in> set (al ! nat node). 0 \<le> y \<and> y < int (length al)"
proof -
  have m: "al ! nat node \<in> set al" using assms(2,3) by simp
  have "distinct (concat al)" using assms(1) by (simp add: forest_list_def)
  then show "distinct (al ! nat node)" using m by (simp add: distinct_concat_iff)
  show "child_rel al `` {node} = set (al ! nat node)"
    using assms(2,3) by (auto simp: child_rel_def)
  show "\<forall>y \<in> set (al ! nat node). 0 \<le> y \<and> y < int (length al)"
    using assms(1) m by (auto simp: forest_list_def)
qed

lemma classify_fresh:
  "y \<notin> entered s \<Longrightarrow> entered (classify d node y s) = entered s
     \<and> back_edges (classify d node y s) = back_edges s"
  by (simp add: classify_def)

lemma rtrancl_image_children:
  "R\<^sup>* `` {node} = insert node (R\<^sup>* `` (R `` {node}))"
proof (intro equalityI subsetI)
  fix x assume "x \<in> R\<^sup>* `` {node}"
  then have "(node, x) \<in> R\<^sup>*" by simp
  then show "x \<in> insert node (R\<^sup>* `` (R `` {node}))"
    by (cases rule: converse_rtranclE) auto
next
  fix x assume "x \<in> insert node (R\<^sup>* `` (R `` {node}))"
  then show "x \<in> R\<^sup>* `` {node}" by (auto intro: converse_rtrancl_into_rtrancl)
qed

lemma dfs_forest:
  assumes fl: "forest_list al"
  shows "d \<longrightarrow> 0 \<le> node \<longrightarrow> node < int (length al)
      \<longrightarrow> entered s \<inter> (child_rel al)\<^sup>* `` {node} = {}
      \<longrightarrow> (\<exists>s'. dfs al d node s = Inr s'
             \<and> entered s' = entered s \<union> (child_rel al)\<^sup>* `` {node}
             \<and> back_edges s' = back_edges s)"
    and "d \<longrightarrow> (\<forall>y \<in> set ys. (node, y) \<in> child_rel al) \<longrightarrow> distinct ys
      \<longrightarrow> entered s \<inter> (child_rel al)\<^sup>* `` set ys = {}
      \<longrightarrow> (\<exists>s'. dfs_for al d node ys s = Inr s'
             \<and> entered s' = entered s \<union> (child_rel al)\<^sup>* `` set ys
             \<and> back_edges s' = back_edges s)"
  using assms
proof (induction al d node s and al d node ys s rule: dfs_dfs_for.induct)
  case (1 al d node s)
  let ?R = "child_rel al"
  show ?case
  proof (intro impI)
    assume d: d and rng: "0 \<le> node" "node < int (length al)"
      and dis: "entered s \<inter> ?R\<^sup>* `` {node} = {}"
    let ?ys = "al ! nat node"
    have nin: "node \<notin> entered s" using dis by auto
    have idx: "py_index al node = Some ?ys" using rng by (simp add: py_index_nonneg)
    note ch = forest_list_children[OF "1.prems" rng]
    have ac: "acyclic ?R" using "1.prems" by (simp add: forest_list_def)
    have img: "?R\<^sup>* `` {node} = insert node (?R\<^sup>* `` set ?ys)"
      using rtrancl_image_children[of ?R node] ch(2) by simp
    have node_not: "node \<notin> ?R\<^sup>* `` set ?ys"
    proof
      assume "node \<in> ?R\<^sup>* `` set ?ys"
      then obtain y where y: "y \<in> set ?ys" "(y, node) \<in> ?R\<^sup>*" by auto
      then have "(node, y) \<in> ?R" using ch(2) by auto
      with y(2) have "(node, node) \<in> ?R\<^sup>+" by (simp add: rtrancl_into_trancl2)
      with ac show False by (simp add: acyclic_def)
    qed
    have "entered s \<inter> ?R\<^sup>* `` set ?ys = {}" using dis unfolding img by blast
    then have pre: "entered (s\<lparr>entered := insert node (entered s)\<rparr>) \<inter> ?R\<^sup>* `` set ?ys = {}"
      using node_not by simp
    have chy: "\<forall>y \<in> set ?ys. (node, y) \<in> ?R" using ch(2) by auto
    from "1.IH"[OF nin idx "1.prems", rule_format, OF d chy[rule_format] ch(1) pre]
    obtain s1 where s1: "dfs_for al d node ?ys (s\<lparr>entered := insert node (entered s)\<rparr>) = Inr s1"
      and e1: "entered s1 = entered (s\<lparr>entered := insert node (entered s)\<rparr>) \<union> ?R\<^sup>* `` set ?ys"
      and b1: "back_edges s1 = back_edges (s\<lparr>entered := insert node (entered s)\<rparr>)"
      by blast
    have r: "dfs al d node s = Inr (s1\<lparr>exited := insert node (exited s1)\<rparr>)"
      using nin idx s1 by (subst dfs.simps) simp
    have "entered (s1\<lparr>exited := insert node (exited s1)\<rparr>) = entered s \<union> ?R\<^sup>* `` {node}"
      unfolding img using e1 by simp
    moreover have "back_edges (s1\<lparr>exited := insert node (exited s1)\<rparr>) = back_edges s"
      using b1 by simp
    ultimately show "\<exists>s'. dfs al d node s = Inr s' \<and> entered s' = entered s \<union> ?R\<^sup>* `` {node}
             \<and> back_edges s' = back_edges s"
      using r by blast
  qed
next
  case (2 al d node s)
  then show ?case by simp
next
  case (3 al d node y ys s)
  let ?R = "child_rel al"
  show ?case
  proof (intro impI)
    assume d: d and ch: "\<forall>y' \<in> set (y # ys). (node, y') \<in> ?R" and dist: "distinct (y # ys)"
      and dis: "entered s \<inter> ?R\<^sup>* `` set (y # ys) = {}"
    have nin: "y \<notin> entered s" using dis by auto
    note cf = classify_fresh[OF nin, of d node]
    have yr: "0 \<le> y" "y < int (length al)"
    proof -
      from ch have "(node, y) \<in> ?R" by simp
      then have n: "0 \<le> node" "node < int (length al)" and y: "y \<in> set (al ! nat node)"
        by (auto simp: child_rel_def)
      from forest_list_children(3)[OF "3.prems" n] y
      show "0 \<le> y" "y < int (length al)" by blast+
    qed
    have "entered s \<inter> ?R\<^sup>* `` {y} = {}" using dis by auto
    then have pre1: "entered (classify d node y s) \<inter> ?R\<^sup>* `` {y} = {}" using cf by simp
    from "3.IH"(1)[OF "3.prems", rule_format, OF d yr pre1]
    obtain s1 where s1': "dfs al d y (classify d node y s) = Inr s1"
      "entered s1 = entered (classify d node y s) \<union> ?R\<^sup>* `` {y}"
      "back_edges s1 = back_edges (classify d node y s)"
      by blast
    then have s1: "dfs al d y (classify d node y s) = Inr s1"
      "entered s1 = entered s \<union> ?R\<^sup>* `` {y}" "back_edges s1 = back_edges s"
      using cf by simp_all
    have sv: "single_valued (?R\<inverse>)" using "3.prems" by (rule forest_list_single_valued)
    have ac: "acyclic ?R" using "3.prems" by (simp add: forest_list_def)
    have sib: "?R\<^sup>* `` {y} \<inter> ?R\<^sup>* `` {y'} = {}" if "y' \<in> set ys" for y'
    proof -
      have "y \<noteq> y'" using dist that by auto
      moreover have "(node, y) \<in> ?R" "(node, y') \<in> ?R" using ch that by auto
      ultimately show ?thesis using siblings_disjoint[OF sv ac] by blast
    qed
    have sib2: "?R\<^sup>* `` {y} \<inter> ?R\<^sup>* `` set ys = {}"
    proof (rule ccontr)
      assume "?R\<^sup>* `` {y} \<inter> ?R\<^sup>* `` set ys \<noteq> {}"
      then obtain z y' where "y' \<in> set ys" "z \<in> ?R\<^sup>* `` {y}" "z \<in> ?R\<^sup>* `` {y'}" by blast
      with sib[of y'] show False by blast
    qed
    have split: "?R\<^sup>* `` set (y # ys) = ?R\<^sup>* `` {y} \<union> ?R\<^sup>* `` set ys" by auto
    have "entered s \<inter> ?R\<^sup>* `` set ys = {}" using dis unfolding split by blast
    then have pre2: "entered s1 \<inter> ?R\<^sup>* `` set ys = {}" using sib2 unfolding s1(2) by blast
    have ch2: "\<forall>y' \<in> set ys. (node, y') \<in> ?R" using ch by simp
    have dist2: "distinct ys" using dist by simp
    from "3.IH"(2)[OF s1(1) "3.prems", rule_format, OF d ch2[rule_format] dist2 pre2]
    obtain s2 where s2: "dfs_for al d node ys s1 = Inr s2"
      "entered s2 = entered s1 \<union> ?R\<^sup>* `` set ys" "back_edges s2 = back_edges s1"
      by blast
    have "dfs_for al d node (y # ys) s = Inr s2" using s1(1) s2(1) by simp
    moreover have "entered s2 = entered s \<union> ?R\<^sup>* `` set (y # ys)"
      unfolding split s2(2) s1(2) by blast
    moreover have "back_edges s2 = back_edges s" using s2(3) s1(3) by simp
    ultimately show "\<exists>s'. dfs_for al d node (y # ys) s = Inr s'
        \<and> entered s' = entered s \<union> ?R\<^sup>* `` set (y # ys) \<and> back_edges s' = back_edges s"
      by blast
  qed
qed

lemma has_cycles_for_forest:
  assumes "forest_list al" and "\<forall>x \<in> set xs. 0 \<le> x \<and> x < int (length al)"
  shows "has_cycles_for al True xs = Inr False"
  using assms(2)
proof (induction xs)
  case Nil
  then show ?case by simp
next
  case (Cons x xs)
  from dfs_forest(1)[OF assms(1), of True x dfs_init] Cons.prems
  obtain s' where "dfs al True x dfs_init = Inr s'" "back_edges s' = []"
    by (auto simp: dfs_init_def)
  with Cons show ?case by simp
qed

lemma has_cycles_impl_forest:
  assumes "forest_list al"
  shows "has_cycles_impl al True = Inr False"
  unfolding has_cycles_impl_def
  by (rule has_cycles_for_forest[OF assms]) auto

lemma concat_np_array: "set (concat (np_array es)) = fst ` set es \<union> snd ` set es"
  by (induction es) (auto simp: np_array_def)

lemma distinct_np_array: "distinct (map snd es) \<Longrightarrow> distinct (np_array es)"
  by (induction es) (auto simp: np_array_def)

lemma length_np_array: "length (np_array es) = length es"
  by (simp add: np_array_def)

lemma shape1_np_array: "es \<noteq> [] \<Longrightarrow> shape1 (np_array es) = 2"
  by (cases es) (auto simp: np_array_def shape1_def)

lemma nd_size_np_array: "nd_size (np_array es) = 2 * length es"
  by (induction es) (auto simp: np_array_def nd_size_def)

lemma directed_fill_np_array:
  assumes "\<forall>e \<in> set es. 0 \<le> fst e \<and> fst e < int (length al)"
  shows "\<exists>al'. directed_fill (np_array es) al = Inr al' \<and> length al' = length al
     \<and> (\<forall>k < length al. al' ! k = al ! k @ map snd (filter (\<lambda>e. fst e = int k) es))"
  using assms
proof (induction es arbitrary: al)
  case Nil
  then show ?case by (simp add: np_array_def)
next
  case (Cons e es)
  obtain p c where e: "e = (p, c)" by (cases e)
  from Cons.prems e have p: "0 \<le> p" "p < int (length al)" by auto
  let ?al1 = "al[nat p := al ! nat p @ [c]]"
  have ap: "append_at al p c = Inr ?al1"
    using p by (simp add: append_at_def norm_index_nonneg)
  have "\<forall>e \<in> set es. 0 \<le> fst e \<and> fst e < int (length ?al1)" using Cons.prems by simp
  from Cons.IH[OF this] obtain al' where al': "directed_fill (np_array es) ?al1 = Inr al'"
    "length al' = length ?al1"
    "\<forall>k < length ?al1. al' ! k = ?al1 ! k @ map snd (filter (\<lambda>e. fst e = int k) es)"
    by blast
  have step: "directed_fill (np_array (e # es)) al = directed_fill (np_array es) ?al1"
    using ap by (simp add: np_array_def e py_index_def norm_index_def)
  have "al' ! k = al ! k @ map snd (filter (\<lambda>e. fst e = int k) (e # es))" if k: "k < length al" for k
  proof (cases "k = nat p")
    case True
    then have "int k = p" using p by simp
    with al'(3) k True show ?thesis by (simp add: e)
  next
    case False
    then have "int k \<noteq> p" using p by auto
    with al'(3) k False show ?thesis by (simp add: e)
  qed
  with al' step show ?case by simp
qed

lemma mset_groups:
  "mset (concat (map (\<lambda>k. map snd (filter (\<lambda>e. fst e = int k) es)) [0..<N]))
     = mset (map snd (filter (\<lambda>e. 0 \<le> fst e \<and> fst e < int N) es))"
proof (induction N)
  case 0
  have "filter (\<lambda>e. 0 \<le> fst e \<and> fst e < int 0) es = []" by (simp add: filter_empty_conv)
  then show ?case by simp
next
  case (Suc N)
  have "mset (map snd (filter (\<lambda>e. 0 \<le> fst e \<and> fst e < int (Suc N)) es))
      = mset (map snd (filter (\<lambda>e. 0 \<le> fst e \<and> fst e < int N) es))
        + mset (map snd (filter (\<lambda>e. fst e = int N) es))"
    by (induction es) auto
  with Suc show ?case by simp
qed

lemma oriented_tree_fst:
  assumes "oriented_tree n root out"
  shows "fst ` set out \<subseteq> {0..<n}" and "root \<in> fst ` set out"
proof -
  from assms have ne: "out \<noteq> []" and vs: "insert root (snd ` set out) = {0..<n}"
    and ord: "\<forall>i < length out. fst (out ! i) = root \<or> fst (out ! i) \<in> snd ` set (take i out)"
    by (simp_all add: oriented_tree_def)
  show "fst ` set out \<subseteq> {0..<n}"
  proof
    fix p assume "p \<in> fst ` set out"
    then obtain i where i: "i < length out" "p = fst (out ! i)" by (auto simp: in_set_conv_nth)
    with ord have "p = root \<or> p \<in> snd ` set (take i out)" by simp
    moreover have "set (take i out) \<subseteq> set out" by (rule set_take_subset)
    ultimately have "p \<in> insert root (snd ` set out)" by auto
    with vs show "p \<in> {0..<n}" by simp
  qed
  from ord ne have "fst (out ! 0) = root" by (cases out) auto
  moreover have "out ! 0 \<in> set out" using ne by simp
  ultimately show "root \<in> fst ` set out" by force
qed

lemma oriented_tree_entries:
  assumes "oriented_tree n root out"
  shows "set (concat (np_array out)) = {0..<n}"
proof -
  from assms have vs: "insert root (snd ` set out) = {0..<n}" by (simp add: oriented_tree_def)
  with oriented_tree_fst[OF assms] show ?thesis unfolding concat_np_array by blast
qed

lemma distinct_nth_notin_take:
  assumes "distinct xs" and "i < length xs"
  shows "xs ! i \<notin> set (take i xs)"
proof
  assume "xs ! i \<in> set (take i xs)"
  then obtain j where j: "j < i" "take i xs ! j = xs ! i"
    using assms(2) by (auto simp: in_set_conv_nth)
  then have "xs ! j = xs ! i" by simp
  with assms j(1) show False by (simp add: nth_eq_iff_index_eq)
qed

lemma oriented_tree_acyclic:
  assumes "oriented_tree n root out"
  shows "acyclic (set out)"
proof -
  from assms have dist: "distinct (map snd out)" and rt: "root \<notin> snd ` set out"
    and ord: "\<forall>i < length out. fst (out ! i) = root \<or> fst (out ! i) \<in> snd ` set (take i out)"
    by (simp_all add: oriented_tree_def)
  define rk where "rk v = (if v = root then 0 else Suc (first_index (map snd out) v))" for v
  have rk_child: "rk (snd (out ! i)) = Suc i" if "i < length out" for i
  proof -
    have "map snd out ! i \<notin> set (take i (map snd out))"
      using dist that by (intro distinct_nth_notin_take) simp_all
    then have "first_index (map snd out) (map snd out ! i) = i"
      using that by (intro first_index_eq) simp_all
    moreover have "snd (out ! i) \<noteq> root" using rt that by (metis image_eqI nth_mem)
    ultimately show ?thesis using that by (simp add: rk_def)
  qed
  have "set out \<subseteq> inv_image less_than rk"
  proof
    fix e assume "e \<in> set out"
    then obtain i where i: "i < length out" "e = out ! i" by (auto simp: in_set_conv_nth)
    have c: "rk (snd e) = Suc i" using rk_child i by simp
    from ord i have "fst e = root \<or> fst e \<in> snd ` set (take i out)" by simp
    then have "rk (fst e) < Suc i"
    proof
      assume "fst e = root"
      then show ?thesis by (simp add: rk_def)
    next
      assume "fst e \<in> snd ` set (take i out)"
      then obtain j where j: "j < i" "fst e = snd (out ! j)"
        using i(1) by (auto simp: in_set_conv_nth)
      with rk_child[of j] i(1) show ?thesis by simp
    qed
    with c show "e \<in> inv_image less_than rk" by (cases e) simp
  qed
  moreover have "wf (inv_image less_than rk)" by (intro wf_inv_image wf_less_than)
  ultimately have "wf (set out)" by (rule wf_subset[rotated])
  then show ?thesis by (rule wf_acyclic)
qed

lemma oriented_tree_n: "oriented_tree n root out \<Longrightarrow> 2 \<le> n"
  by (cases out) (auto simp: oriented_tree_def)

lemma oriented_tree_min_max:
  assumes "oriented_tree n root out"
  shows "nd_min (np_array out) = Inr 0" and "nd_max (np_array out) = Inr (n - 1)"
proof -
  have n: "2 \<le> n" using assms by (rule oriented_tree_n)
  have s: "set (concat (np_array out)) = {0..<n}" using assms by (rule oriented_tree_entries)
  have "set (concat (np_array out)) \<noteq> {}" unfolding s using n by simp
  then have ne: "concat (np_array out) \<noteq> []" by (metis set_empty)
  have "Min {0..<n} = 0" using n by (intro Min_eqI) auto
  then show "nd_min (np_array out) = Inr 0" using nd_min_eq[OF ne] s by simp
  have "Max {0..<n} = n - 1" using n by (intro Max_eqI) auto
  then show "nd_max (np_array out) = Inr (n - 1)" using nd_max_eq[OF ne] s by simp
qed

lemma oriented_tree_adjacency_list:
  assumes ot: "oriented_tree n root out"
  obtains al where "get_adjacency_list Tree (np_array out) = Inr al"
    and "length al = nat n"
    and "\<forall>k < nat n. al ! k = map snd (filter (\<lambda>e. fst e = int k) out)"
proof -
  have n: "2 \<le> n" using ot by (rule oriented_tree_n)
  have "\<forall>e \<in> set out. 0 \<le> fst e \<and> fst e < int (length (replicate (nat n) ([]::int list)))"
    using oriented_tree_fst(1)[OF ot] n by auto
  from directed_fill_np_array[OF this]
  obtain al where al: "directed_fill (np_array out) (replicate (nat n) []) = Inr al"
    "length al = nat n"
    "\<forall>k < nat n. al ! k = replicate (nat n) [] ! k @ map snd (filter (\<lambda>e. fst e = int k) out)"
    by auto
  have "get_adjacency_list Tree (np_array out) = Inr al"
    using al(1) n by (simp add: get_adjacency_list_def oriented_tree_min_max(2)[OF ot])
  moreover have "\<forall>k < nat n. al ! k = map snd (filter (\<lambda>e. fst e = int k) out)"
    using al(3) by simp
  ultimately show thesis using al(2) that by blast
qed

lemma oriented_tree_forest:
  assumes ot: "oriented_tree n root out" and len: "length al = nat n"
    and al: "\<forall>k < nat n. al ! k = map snd (filter (\<lambda>e. fst e = int k) out)"
  shows "child_rel al = set out" and "forest_list al"
proof -
  have n: "2 \<le> n" using ot by (rule oriented_tree_n)
  have fst_rng: "fst ` set out \<subseteq> {0..<n}" using ot by (rule oriented_tree_fst)
  have snd_rng: "snd ` set out \<subseteq> {0..<n}" using ot by (auto simp: oriented_tree_def)
  show cr: "child_rel al = set out"
  proof (intro equalityI subsetI)
    fix e assume "e \<in> child_rel al"
    then obtain p c where e: "e = (p, c)" "0 \<le> p" "p < int (length al)" "c \<in> set (al ! nat p)"
      by (auto simp: child_rel_def)
    then have "nat p < nat n" using len n by simp
    with al e show "e \<in> set out" by auto
  next
    fix e assume e: "e \<in> set out"
    obtain p c where pc: "e = (p, c)" by (cases e)
    with e fst_rng have p: "0 \<le> p" "p < n" by force+
    then have "nat p < nat n" by simp
    with al have "al ! nat p = map snd (filter (\<lambda>e. fst e = int (nat p)) out)" by simp
    then have "c \<in> set (al ! nat p)" using e pc p by force
    with p len pc show "e \<in> child_rel al" by (simp add: child_rel_def)
  qed
  have al_eq: "al = map (\<lambda>k. map snd (filter (\<lambda>e. fst e = int k) out)) [0..<nat n]"
    using len al by (intro nth_equalityI) simp_all
  have "filter (\<lambda>e. 0 \<le> fst e \<and> fst e < int (nat n)) out = out"
    using fst_rng n by (auto simp: filter_id_conv)
  then have "mset (concat al) = mset (map snd out)"
    unfolding al_eq mset_groups by simp
  moreover have "distinct (map snd out)" using ot by (simp add: oriented_tree_def)
  ultimately have dist: "distinct (concat al)" by (metis mset_eq_imp_distinct_iff)
  have "set (concat al) = set (map snd out)"
    using \<open>mset (concat al) = mset (map snd out)\<close> by (rule mset_eq_setD)
  then have rng: "\<forall>c \<in> set (concat al). 0 \<le> c \<and> c < int (length al)"
    using snd_rng len n by auto
  have "acyclic (child_rel al)" unfolding cr using ot by (rule oriented_tree_acyclic)
  with dist rng show "forest_list al" by (simp add: forest_list_def)
qed

lemma oriented_tree_graph_init:
  assumes ot: "oriented_tree n root out"
  obtains g where "Graph_init Tree (np_array out) = Inr g"
    and "adjacency_array g = np_array out" and "cls g = Tree"
    and "n_vertices g = Inr n" and "forest_list (adjacency_list g)"
    and "child_rel (adjacency_list g) = set out"
proof -
  from ot have ne: "out \<noteq> []" and dist: "distinct (map snd out)"
    by (simp_all add: oriented_tree_def)
  from oriented_tree_adjacency_list[OF ot] obtain al where
    al: "get_adjacency_list Tree (np_array out) = Inr al" "length al = nat n"
       "\<forall>k < nat n. al ! k = map snd (filter (\<lambda>e. fst e = int k) out)" by blast
  have u: "unique_array_rows (np_array out) = np_array out"
    using dist by (simp add: unique_array_rows_first_seen first_seen_rows_distinct_id distinct_np_array)
  define g where "g = \<lparr>cls = Tree, adjacency_array = np_array out, adjacency_list = al,
                 root_vertex = None, predecessors_list = None\<rparr>"
  have "Graph_init Tree (np_array out) = Inr g"
    using ne al(1) u
    by (simp add: Graph_init_def nd_size_np_array shape1_np_array oriented_tree_min_max[OF ot] g_def)
  moreover have "n_vertices g = Inr n"
    by (simp add: n_vertices_def g_def oriented_tree_min_max[OF ot])
  moreover have "forest_list (adjacency_list g)" "child_rel (adjacency_list g) = set out"
    using oriented_tree_forest[OF ot al(2,3)] by (simp_all add: g_def)
  ultimately show thesis using that by (simp add: g_def)
qed

lemma predecessors_fill_np_array:
  assumes "\<forall>e \<in> set es. 0 \<le> snd e \<and> snd e < int (length pl)"
  shows "\<exists>pl'. predecessors_fill (np_array es) pl = Inr pl' \<and> length pl' = length pl
     \<and> (\<forall>k < length pl. int k \<notin> snd ` set es \<longrightarrow> pl' ! k = pl ! k)
     \<and> (distinct (map snd es) \<longrightarrow> (\<forall>e \<in> set es. pl' ! nat (snd e) = Some (fst e)))"
  using assms
proof (induction es arbitrary: pl)
  case Nil
  then show ?case by (simp add: np_array_def)
next
  case (Cons e es)
  obtain p c where e: "e = (p, c)" by (cases e)
  from Cons.prems e have c: "0 \<le> c" "c < int (length pl)" by auto
  let ?pl1 = "pl[nat c := Some p]"
  have asg: "assign_at pl c (Some p) = Inr ?pl1"
    using c by (simp add: assign_at_def norm_index_nonneg)
  have "\<forall>e \<in> set es. 0 \<le> snd e \<and> snd e < int (length ?pl1)" using Cons.prems by simp
  from Cons.IH[OF this] obtain pl' where pl': "predecessors_fill (np_array es) ?pl1 = Inr pl'"
    "length pl' = length ?pl1"
    "\<forall>k < length ?pl1. int k \<notin> snd ` set es \<longrightarrow> pl' ! k = ?pl1 ! k"
    "distinct (map snd es) \<longrightarrow> (\<forall>e \<in> set es. pl' ! nat (snd e) = Some (fst e))"
    by blast
  have step: "predecessors_fill (np_array (e # es)) pl = predecessors_fill (np_array es) ?pl1"
    using asg by (simp add: np_array_def e py_index_def norm_index_def)
  have un: "pl' ! k = pl ! k" if "k < length pl" "int k \<notin> snd ` set (e # es)" for k
  proof -
    from that have "k \<noteq> nat c" "int k \<notin> snd ` set es" using c by (auto simp: e)
    with pl'(3) that(1) show ?thesis by simp
  qed
  have ch: "pl' ! nat (snd e') = Some (fst e')" if d: "distinct (map snd (e # es))" and e': "e' \<in> set (e # es)" for e'
  proof (cases "e' = e")
    case True
    have "int (nat c) \<notin> snd ` set es" using d c by (auto simp: e)
    with pl'(3) c have "pl' ! nat c = ?pl1 ! nat c" by simp
    with True c show ?thesis by (simp add: e)
  next
    case False
    with e' d pl'(4) show ?thesis by simp
  qed
  from pl'(1,2) step un ch show ?case by (intro exI[of _ pl']) simp
qed

lemma oriented_tree_predecessors:
  assumes ot: "oriented_tree n root out"
  obtains pl where "get_predecessors_list (np_array out) = Inr pl" and "length pl = nat n"
    and "\<forall>v \<in> {0..<n}. reaches_root pl root v"
proof -
  have n: "2 \<le> n" using ot by (rule oriented_tree_n)
  from ot have dist: "distinct (map snd out)" and rt: "root \<notin> snd ` set out"
    and vs: "insert root (snd ` set out) = {0..<n}"
    and ord: "\<forall>i < length out. fst (out ! i) = root \<or> fst (out ! i) \<in> snd ` set (take i out)"
    by (simp_all add: oriented_tree_def)
  have "snd ` set out \<subseteq> {0..<n}" using vs by blast
  then have "\<forall>e \<in> set out. 0 \<le> snd e \<and> snd e < int (length (replicate (nat n) (None::int option)))"
    using n by auto
  from predecessors_fill_np_array[OF this] dist
  obtain pl where pl: "predecessors_fill (np_array out) (replicate (nat n) None) = Inr pl"
    "length pl = nat n"
    "\<forall>e \<in> set out. pl ! nat (snd e) = Some (fst e)"
    by auto
  have gp: "get_predecessors_list (np_array out) = Inr pl"
    using pl(1) n by (simp add: get_predecessors_list_def oriented_tree_min_max(2)[OF ot])
  have child: "reaches_root pl root (snd (out ! i))" if "i < length out" for i
    using that
  proof (induction i rule: less_induct)
    case (less i)
    let ?v = "snd (out ! i)" and ?p = "fst (out ! i)"
    have mem: "out ! i \<in> set out" using less.prems by simp
    then have "?v \<in> {0..<n}" using vs by auto
    then have "py_index pl ?v = Some (pl ! nat ?v)" using pl(2) by (simp add: py_index_nonneg)
    with pl(3) mem have idx: "py_index pl ?v = Some (Some ?p)" by simp
    from ord less.prems have "?p = root \<or> ?p \<in> snd ` set (take i out)" by simp
    then have "reaches_root pl root ?p"
    proof
      assume "?p = root"
      then show ?thesis by (simp add: reaches_root.at_root)
    next
      assume "?p \<in> snd ` set (take i out)"
      then obtain j where j: "j < i" "?p = snd (out ! j)"
        using less.prems by (auto simp: in_set_conv_nth)
      with less.IH[of j] less.prems show ?thesis by simp
    qed
    with idx show ?case by (rule reaches_root.up)
  qed
  have "\<forall>v \<in> {0..<n}. reaches_root pl root v"
  proof
    fix v assume "v \<in> {0..<n}"
    with vs have "v = root \<or> v \<in> snd ` set out" by blast
    then show "reaches_root pl root v"
    proof
      assume "v = root"
      then show ?thesis by (simp add: reaches_root.at_root)
    next
      assume "v \<in> snd ` set out"
      then obtain i where "i < length out" "v = snd (out ! i)" by (auto simp: in_set_conv_nth)
      with child show ?thesis by simp
    qed
  qed
  with gp pl(2) show thesis using that by blast
qed

lemma oriented_tree_init:
  assumes ot: "oriented_tree n root out"
  shows "\<exists>t. Tree_init (np_array out) root = Inr t \<and> cls t = Tree
     \<and> adjacency_array t = np_array out \<and> n_vertices t = Inr n \<and> n_edges t = n - 1
     \<and> has_cycles t = Inr False \<and> is_tree t = Inr True \<and> root_vertex t = Some root
     \<and> (\<forall>v \<in> {0..<n}. \<exists>d. depth_of_vertex t v = Some (Inr d))"
proof -
  have n: "2 \<le> n" using ot by (rule oriented_tree_n)
  from ot have len: "int (length out) = n - 1" and vs: "insert root (snd ` set out) = {0..<n}"
    by (simp_all add: oriented_tree_def)
  have root: "0 \<le> root" "root < n" using vs by auto
  from oriented_tree_graph_init[OF ot] obtain g where
    g: "Graph_init Tree (np_array out) = Inr g" "adjacency_array g = np_array out" "cls g = Tree"
      "n_vertices g = Inr n" "forest_list (adjacency_list g)" by blast
  from oriented_tree_predecessors[OF ot] obtain pl where
    pl: "get_predecessors_list (np_array out) = Inr pl" "length pl = nat n"
      "\<forall>v \<in> {0..<n}. reaches_root pl root v" by blast
  have hc: "has_cycles g = Inr False"
    using has_cycles_impl_forest[OF g(5)] by (simp add: has_cycles_def g(3))
  have ne: "n_edges g = n - 1" using len by (simp add: n_edges_def g(2) length_np_array)
  have it: "is_tree g = Inr True" using hc ne by (simp add: is_tree_def g(4))
  have cv: "check_vertex g v = Inr ()" if "v \<in> {0..<n}" for v
    using that by (simp add: check_vertex_def g(4))
  define t where "t = g\<lparr>root_vertex := Some root, predecessors_list := Some pl\<rparr>"
  have ti: "Tree_init (np_array out) root = Inr t"
    using g(1,2,4) it ne cv[of root] root pl(1) by (simp add: Tree_init_def t_def)
  have nvt: "n_vertices t = Inr n" using g(4) by (simp add: t_def n_vertices_def)
  have "\<exists>d. depth_of_vertex t v = Some (Inr d)" if v: "v \<in> {0..<n}" for v
  proof -
    have "check_vertex t v = Inr ()" using v nvt by (simp add: check_vertex_def)
    then have "depth_of_vertex t v = depth_while (Some pl) root (Some v) 0"
      by (simp add: depth_of_vertex_def t_def)
    with reaches_root_depth[of pl root v 0] pl(3) v show ?thesis by auto
  qed
  moreover have "has_cycles t = Inr False" using hc by (simp add: has_cycles_def t_def)
  moreover have "is_tree t = Inr True"
    using hc ne nvt by (simp add: is_tree_def has_cycles_def n_edges_def t_def)
  moreover have "n_edges t = n - 1" using ne by (simp add: n_edges_def t_def)
  moreover have "cls t = Tree" "adjacency_array t = np_array out" "root_vertex t = Some root"
    using g(2,3) by (simp_all add: t_def)
  ultimately show ?thesis using ti nvt by blast
qed

lemma correct_tree_edges_oriented:
  assumes st: "spanning_tree n es" and n: "2 \<le> n" and root: "0 \<le> root" "root < n"
  shows "\<exists>out. correct_tree_edges es root = Inr out \<and> oriented_tree n root out
     \<and> (\<forall>e \<in> set out. e \<in> set es \<or> (snd e, fst e) \<in> set es)"
proof -
  from bfs_result[OF bfs_inv_init[of es root]] obtain out pool where
    res: "correct_tree_edges es root = Inr out" and inv: "bfs_inv es root pool [] out"
    by (auto simp: correct_tree_edges_def)
  note fin = bfs_final[OF inv st root]
  from st have len: "int (length es) = n - 1" by (simp add: spanning_tree_def)
  from inv have d: "\<forall>e \<in> set out. e \<in> set es \<or> (snd e, fst e) \<in> set es"
    and h: "\<forall>i < length out. fst (out ! i) = root \<or> fst (out ! i) \<in> snd ` set (take i out)"
    by (simp_all add: bfs_inv_def)
  have "out \<noteq> []" using fin(2) len n by auto
  moreover have "int (length out) = n - 1" using fin(2) len by simp
  moreover have "insert root (snd ` set out) = {0..<n}" using fin(1) by (simp add: visited_def)
  ultimately have "oriented_tree n root out"
    using fin(3,4) h by (simp add: oriented_tree_def)
  with res d show ?thesis by blast
qed

text \<open>
  C5, as amended. For every graph of \<open>n \<ge> 2\<close> vertices on which the solver returns a
  spanning tree, and every root that is a vertex of the graph, \<^verbatim>\<open>minimum_spanning_tree\<close>
  returns a tree with \<open>n\<close> vertices and \<open>n - 1\<close> edges, without cycles, with the requested
  root; every vertex has a depth, so the edges lead from the root to every vertex, parent
  first; and every edge of the tree is an edge of the solver, in one direction or the other.
\<close>

theorem minimum_spanning_tree_rooted:
  assumes "n_vertices g = Inr n" and "spanning_tree n (solver g weights)"
    and "2 \<le> n" and "0 \<le> root" and "root < n"
  shows "\<exists>t. minimum_spanning_tree solver g weights root = Inr t
     \<and> cls t = Tree \<and> n_vertices t = Inr n \<and> n_edges t = n - 1
     \<and> has_cycles t = Inr False \<and> is_tree t = Inr True \<and> root_vertex t = Some root
     \<and> (\<forall>v \<in> {0..<n}. \<exists>d. depth_of_vertex t v = Some (Inr d))
     \<and> (\<forall>r \<in> set (adjacency_array t). \<exists>p c. r = [p, c]
           \<and> ((p, c) \<in> set (solver g weights) \<or> (c, p) \<in> set (solver g weights)))"
proof -
  let ?es = "solver g weights"
  from correct_tree_edges_oriented[OF assms(2-5)] obtain out where
    out: "correct_tree_edges ?es root = Inr out" "oriented_tree n root out"
      "\<forall>e \<in> set out. e \<in> set ?es \<or> (snd e, fst e) \<in> set ?es" by blast
  from oriented_tree_init[OF out(2)] obtain t where
    t: "Tree_init (np_array out) root = Inr t" "cls t = Tree"
      "adjacency_array t = np_array out" "n_vertices t = Inr n" "n_edges t = n - 1"
      "has_cycles t = Inr False" "is_tree t = Inr True" "root_vertex t = Some root"
      "\<forall>v \<in> {0..<n}. \<exists>d. depth_of_vertex t v = Some (Inr d)" by blast
  have mst: "minimum_spanning_tree solver g weights root = Inr t"
    using out(1) t(1) by (simp add: minimum_spanning_tree_def)
  have "\<forall>r \<in> set (adjacency_array t). \<exists>p c. r = [p, c] \<and> ((p, c) \<in> set ?es \<or> (c, p) \<in> set ?es)"
  proof
    fix r assume "r \<in> set (adjacency_array t)"
    then obtain p c where "(p, c) \<in> set out" "r = [p, c]" by (auto simp: t(3) np_array_def)
    with out(3) show "\<exists>p c. r = [p, c] \<and> ((p, c) \<in> set ?es \<or> (c, p) \<in> set ?es)" by force
  qed
  with mst t show ?thesis by blast
qed

lemma mst_edges_spanning: "spanning_tree 6 mst_edges"
proof -
  let ?R = "either_way mst_edges"
  have e: "(0, 1) \<in> ?R" "(1, 3) \<in> ?R" "(3, 5) \<in> ?R" "(0, 2) \<in> ?R" "(2, 4) \<in> ?R"
    by (simp_all add: either_way_def mst_edges_def)
  have r1: "(0, 1) \<in> ?R\<^sup>*" using e(1) by (rule r_into_rtrancl)
  have r3: "(0, 3) \<in> ?R\<^sup>*" using r1 e(2) by (rule rtrancl.rtrancl_into_rtrancl)
  have r5: "(0, 5) \<in> ?R\<^sup>*" using r3 e(3) by (rule rtrancl.rtrancl_into_rtrancl)
  have r2: "(0, 2) \<in> ?R\<^sup>*" using e(4) by (rule r_into_rtrancl)
  have r4: "(0, 4) \<in> ?R\<^sup>*" using r2 e(5) by (rule rtrancl.rtrancl_into_rtrancl)
  have from0: "(0, v) \<in> ?R\<^sup>*" if "v \<in> {0..<6}" for v
  proof -
    from that have "v = 0 \<or> v = 1 \<or> v = 2 \<or> v = 3 \<or> v = 4 \<or> v = 5" by auto
    with r1 r2 r3 r4 r5 show ?thesis by auto
  qed
  have "sym ?R" by (auto simp: either_way_def sym_def)
  then have s: "sym (?R\<^sup>*)" by (rule sym_rtrancl)
  have conn: "(u, v) \<in> ?R\<^sup>*" if "u \<in> {0..<6}" "v \<in> {0..<6}" for u v
  proof -
    have "(u, 0) \<in> ?R\<^sup>*" using from0[OF that(1)] s by (simp add: sym_def)
    then show ?thesis using from0[OF that(2)] by (rule rtrancl_trans)
  qed
  show ?thesis unfolding spanning_tree_def
    using conn by (simp add: mst_edges_def)
qed

theorem minimum_spanning_tree_rooted_witness:
  "n_vertices G9 = Inr 6 \<and> spanning_tree 6 mst_edges
   \<and> minimum_spanning_tree (\<lambda>g w. mst_edges) G9 () 3 = Inr mst_tree
   \<and> n_edges mst_tree = 5 \<and> has_cycles mst_tree = Inr False \<and> root_vertex mst_tree = Some 3
   \<and> depth_of_vertex mst_tree 4 = Some (Inr 4)"
proof -
  have n: "n_vertices G9 = Inr 6" by code_simp
  have m: "minimum_spanning_tree (\<lambda>g w. mst_edges) G9 () 3 = Inr mst_tree" by code_simp
  have d: "depth_of_vertex mst_tree 4 = Some (Inr 4)" by code_simp
  from minimum_spanning_tree_rooted[of G9 6 "\<lambda>g w. mst_edges" "()" 3, OF n mst_edges_spanning]
  have "n_edges mst_tree = 5 \<and> has_cycles mst_tree = Inr False \<and> root_vertex mst_tree = Some 3"
    unfolding m by simp
  with n m d mst_edges_spanning show ?thesis by simp
qed

text \<open>
  C5 as stated fails: on the graph with the single vertex 0 the empty list is a spanning
  tree, and the tree constructor refuses an empty edge array; and a root that is not a vertex
  of the graph leaves every edge of the solver unoriented, with the same error.
\<close>

theorem minimum_spanning_tree_counterexample:
  "Graph_init UndirectedGraph [[0, 0]] = Inr loop_graph \<and> n_vertices loop_graph = Inr 1
   \<and> spanning_tree 1 []
   \<and> minimum_spanning_tree (\<lambda>g w. []) loop_graph () 0 = Inl ValueError
   \<and> n_vertices G9 = Inr 6 \<and> spanning_tree 6 mst_edges
   \<and> minimum_spanning_tree (\<lambda>g w. mst_edges) G9 () 6 = Inl ValueError"
proof -
  have "(u, v) \<in> (either_way [])\<^sup>*" if "u \<in> {0..<1}" "v \<in> {0..<1}" for u v :: int
  proof -
    from that have "u = v" by simp
    then show ?thesis by simp
  qed
  then have "spanning_tree 1 []" unfolding spanning_tree_def by simp
  moreover have "Graph_init UndirectedGraph [[0, 0]] = Inr loop_graph \<and> n_vertices loop_graph = Inr 1
   \<and> minimum_spanning_tree (\<lambda>g w. []) loop_graph () 0 = Inl ValueError
   \<and> n_vertices G9 = Inr 6
   \<and> minimum_spanning_tree (\<lambda>g w. mst_edges) G9 () 6 = Inl ValueError" by code_simp
  ultimately show ?thesis using mst_edges_spanning by simp
qed

end
